theory Spec2Isabelle
  imports Complex_Main
begin

section \<open>The netlist checker of qucs-core (check\_netlist.cpp)\<close>

text \<open>
  A shallow embedding of \<^verbatim>\<open>src/qucs-core/src/check_netlist.cpp\<close>. The linked lists of
  the C code (\<^verbatim>\<open>next\<close> pointers) are HOL lists, a \<^verbatim>\<open>char *\<close> that may be
  \<^verbatim>\<open>NULL\<close> is a \<open>string option\<close>, a \<^verbatim>\<open>double\<close> is a \<open>real\<close> (rounding is not
  modelled), and a pointer into the statement list is the index of the statement (and of
  the property) it points to, so that a write through the pointer is an update of the
  list at that index.

  Every \<^verbatim>\<open>errors++\<close> of the source is recorded with the diagnostic that is logged for
  it: a function that returns an error count in C returns the list of the errors it
  counted, and the C count is the length of that list.
\<close>

subsection \<open>Data model\<close>

text \<open>The variable tags of \<^verbatim>\<open>equation.h\<close> that the checker writes; \<open>TAG_UNKNOWN\<close> is the
  zero-initialised field.\<close>

datatype tag_t = TAG_UNKNOWN | TAG_DOUBLE | TAG_VECTOR

text \<open>\<^verbatim>\<open>struct value_t\<close>; the \<^verbatim>\<open>next\<close> pointer of a value list is kept in the property
  that owns the list (\<open>pnext\<close> below).\<close>

record value_t =
  ident :: "string option"
  "value" :: real
  scale :: "string option"
  unit :: "string option"
  var :: tag_t
  subst :: int

text \<open>\<^verbatim>\<open>struct pair_t\<close>: \<open>pvalue\<close> is \<^verbatim>\<open>pair->value\<close>, the first value of the property
  (the checker dereferences it without a test), and \<open>pnext\<close> is the chain
  \<^verbatim>\<open>pair->value->next\<close>, \<^verbatim>\<open>pair->value->next->next\<close>, ...\<close>

record pair_t =
  key :: string
  pvalue :: value_t
  pnext :: "value_t list"

text \<open>\<^verbatim>\<open>struct node_t\<close>: \<open>node\<close> is \<open>None\<close> for a node name left blank during
  expansion.\<close>

record node_t =
  node :: "string option"
  xlate :: "string option"
  xlatenr :: int

text \<open>Modelled from the spec: a property descriptor of the catalog (\<^verbatim>\<open>struct property_t\<close> and
  the macros \<^verbatim>\<open>PROP_IS_VAL\<close>, \<^verbatim>\<open>PROP_IS_LST\<close>, \<^verbatim>\<open>PROP_IS_INT\<close>,
  \<^verbatim>\<open>PROP_HAS_RANGE\<close> of \<^verbatim>\<open>check_netlist.h\<close>, which is not among the sources): numeric or
  identifier kind, integer-only flag, list-allowed flag, optional numeric range.\<close>

record property_t =
  pkey :: string
  PROP_IS_VAL :: bool
  PROP_IS_INT :: bool
  PROP_IS_LST :: bool
  prange :: "(real \<times> real) option"

text \<open>Modelled from the spec: a catalog entry (\<^verbatim>\<open>struct define_t\<close> of
  \<^verbatim>\<open>check_netlist.h\<close>). The arrays \<^verbatim>\<open>required\<close> and \<^verbatim>\<open>optional\<close>, which end at the
  first entry that is not \<^verbatim>\<open>PROP_IS_PROP\<close>, are lists. \<open>av_nodes\<close> is the required node
  count, or \<open>PROP_NODES\<close> for ``at least one''.\<close>

record define_t =
  av_type :: string
  av_nodes :: int
  av_action :: int
  av_substrate :: int
  av_nonlinear :: int
  av_required :: "property_t list"
  av_optional :: "property_t list"

definition PROP_NODES :: int where
  "PROP_NODES = -1"

definition PROP_COMPONENT :: int where
  "PROP_COMPONENT = 0"

text \<open>\<^verbatim>\<open>struct definition_t\<close>. The fields that do not refer to other statements are the
  record \<open>definition_r\<close>; \<open>sub\<close> is the body of a \<^verbatim>\<open>Def\<close> statement.\<close>

record definition_r =
  type :: string
  "instance" :: string
  line :: int
  action :: int
  nodeset :: int
  nonlinear :: int
  substrate :: int
  duplicate :: int
  copy :: int
  ncount :: int
  nodes :: "node_t list"
  pairs :: "pair_t list"
  "define" :: "define_t option"
  subcircuit :: "string option"

datatype definition_t = Definition (attrs: definition_r) (sub: "definition_t list")

definition map_attrs :: "(definition_r \<Rightarrow> definition_r) \<Rightarrow> definition_t \<Rightarrow> definition_t" where
  "map_attrs f d = Definition (f (attrs d)) (sub d)"


text \<open>The diagnostics of the checker, one kind for each place where the source logs an
  error and counts it. An error is its kind and the names the message is about (the type
  and instance of the statement, then the property key or identifier).\<close>

datatype error_kind =
    UnknownType
  | NodeCountMismatch
  | MissingOrDuplicateRequired
  | DuplicateOptional
  | ExtraneousProperty
  | ScaleError
  | ValueNotInRange
  | UnresolvedIdentifier
  | DuplicateDefinition
  | InvalidReference
  | MissingSubstrate
  | UnknownSubcircuitType
  | SubcircuitNodeArityMismatch
  | CyclicSubcircuit
  | NoSuchNode
  | NodesetNotUnique
  | NoActions
  | MissingPac
  | ExcessDcAction
  | MissingDcAction
  | SelfReferringSweep
  | UnknownAction
  | CyclicSweep
  | DuplicatePortNumber
  | MissingSweepProperty
  | ExtraneousSweepProperty
  | SweepNotSingleValue

datatype checker_error = Err (kind: error_kind) (about: "string list")

text \<open>The diagnostics of \<^verbatim>\<open>checker_value_in_prop_range\<close>, which the caller counts as one
  error however many there are.\<close>

datatype range_error = NoListsPossible | OutOfRange | NotInteger | NotIdentifier

subsection \<open>Lookups\<close>

definition checker_count_nodes :: "definition_t \<Rightarrow> nat" where
  "checker_count_nodes d = length (nodes (attrs d))"

fun checker_find_definition :: "define_t list \<Rightarrow> string \<Rightarrow> int \<Rightarrow> define_t option" where
  "checker_find_definition [] t a = None"
| "checker_find_definition (d # ds) t a =
     (if t = av_type d \<and> a = av_action d then Some d else checker_find_definition ds t a)"

fun checker_find_property :: "string \<Rightarrow> pair_t list \<Rightarrow> nat" where
  "checker_find_property k [] = 0"
| "checker_find_property k (p # ps) =
     (if key p = k then 1 else 0) + checker_find_property k ps"

definition checker_is_property :: "define_t \<Rightarrow> string \<Rightarrow> bool" where
  "checker_is_property available k =
     (if \<exists>p \<in> set (av_required available). pkey p = k then True
      else if \<exists>p \<in> set (av_optional available). pkey p = k then True
      else False)"

text \<open>\<^verbatim>\<open>checker_count_definition\<close> counts the statements with the given type and instance
  and marks each of them but the first as a duplicate. \<open>count\<close> is the number of matches
  seen so far.\<close>

fun count_definition_loop ::
  "definition_t list \<Rightarrow> string \<Rightarrow> string \<Rightarrow> nat \<Rightarrow> nat \<times> definition_t list" where
  "count_definition_loop [] t i count = (count, [])"
| "count_definition_loop (d # ds) t i count =
     (if type (attrs d) = t \<and> instance (attrs d) = i then
        (let d' = (if Suc count > 1 then map_attrs (\<lambda>a. a\<lparr>duplicate := 1\<rparr>) d else d);
             (n, ds') = count_definition_loop ds t i (Suc count)
         in (n, d' # ds'))
      else
        (let (n, ds') = count_definition_loop ds t i count in (n, d # ds')))"

definition checker_count_definition ::
  "definition_t list \<Rightarrow> string \<Rightarrow> string \<Rightarrow> nat \<times> definition_t list" where
  "checker_count_definition rt t i = count_definition_loop rt t i 0"

text \<open>\<^verbatim>\<open>checker_find_variable\<close> returns a pointer to the first value of a property; here
  the position of that property: the index of the statement and the index of the
  property in it.\<close>

fun find_variable_pairs :: "pair_t list \<Rightarrow> string \<Rightarrow> string option \<Rightarrow> nat option" where
  "find_variable_pairs [] k idt = None"
| "find_variable_pairs (p # ps) k idt =
     (if key p = k \<and> ident (pvalue p) \<noteq> None \<and> idt \<noteq> None \<and> ident (pvalue p) = idt
      then Some 0
      else map_option Suc (find_variable_pairs ps k idt))"

fun checker_find_variable ::
  "definition_t list \<Rightarrow> string \<Rightarrow> string \<Rightarrow> string option \<Rightarrow> (nat \<times> nat) option" where
  "checker_find_variable [] t k idt = None"
| "checker_find_variable (d # ds) t k idt =
     (case (if type (attrs d) = t then find_variable_pairs (pairs (attrs d)) k idt else None) of
        Some j \<Rightarrow> Some (0, j)
      | None \<Rightarrow> map_option (\<lambda>(i, j). (Suc i, j)) (checker_find_variable ds t k idt))"

fun find_reference_pairs :: "pair_t list \<Rightarrow> string \<Rightarrow> value_t option" where
  "find_reference_pairs [] k = None"
| "find_reference_pairs (p # ps) k =
     (if key p = k \<and> ident (pvalue p) \<noteq> None then Some (pvalue p)
      else find_reference_pairs ps k)"

definition checker_find_reference :: "definition_t \<Rightarrow> string \<Rightarrow> value_t option" where
  "checker_find_reference d k = find_reference_pairs (pairs (attrs d)) k"

text \<open>\<^verbatim>\<open>checker_find_prop_value\<close> returns the first property with the given key whose
  value is not an identifier: its index and the property.\<close>

fun find_prop_value_pairs :: "pair_t list \<Rightarrow> string \<Rightarrow> (nat \<times> pair_t) option" where
  "find_prop_value_pairs [] k = None"
| "find_prop_value_pairs (p # ps) k =
     (if key p = k \<and> ident (pvalue p) = None then Some (0, p)
      else map_option (\<lambda>(j, q). (Suc j, q)) (find_prop_value_pairs ps k))"

definition checker_find_prop_value :: "definition_t \<Rightarrow> string \<Rightarrow> (nat \<times> pair_t) option" where
  "checker_find_prop_value d k = find_prop_value_pairs (pairs (attrs d)) k"

text \<open>\<^verbatim>\<open>checker_validate_reference\<close> logs when there is no such reference; the caller
  counts the error.\<close>

definition checker_validate_reference :: "definition_t \<Rightarrow> string \<Rightarrow> value_t option" where
  "checker_validate_reference d k = checker_find_reference d k"

subsection \<open>Special identifiers and substrates\<close>

definition strip_available :: "string list" where
  "strip_available =
     [''MLIN'', ''MCORN'', ''MMBEND'', ''MSTEP'', ''MOPEN'', ''MGAP'', ''MCOUPLED'', ''MTEE'',
      ''MCROSS'', ''MVIA'', ''CLIN'']"

text \<open>\<^verbatim>\<open>struct special_t\<close>: component type, parameter name, allowed values.\<close>

type_synonym special_t = "string \<times> string \<times> string list"

definition checker_specials :: "special_t list" where
  "checker_specials =
     [(''JFET'', ''Type'', [''nfet'', ''pfet'']),
      (''BJT'', ''Type'', [''npn'', ''pnp'']),
      (''MOSFET'', ''Type'', [''nfet'', ''pfet'']),
      (''SP'', ''Noise'', [''yes'', ''no'']),
      (''SP'', ''Type'', [''lin'', ''log'', ''list'', ''const'']),
      (''AC'', ''Type'', [''lin'', ''log'', ''list'', ''const'']),
      (''AC'', ''Noise'', [''yes'', ''no'']),
      (''DC'', ''saveOPs'', [''yes'', ''no'']),
      (''DC'', ''saveAll'', [''yes'', ''no'']),
      (''DC'', ''convHelper'', [''none'', ''SourceStepping'', ''gMinStepping'',
         ''LineSearch'', ''Attenuation'', ''SteepestDescent'']),
      (''TR'', ''Type'', [''lin'', ''log'']),
      (''TR'', ''IntegrationMethod'', [''Euler'', ''Trapezoidal'', ''Gear'', ''AdamsMoulton'']),
      (''MLIN'', ''DispModel'', [''Kirschning'', ''Kobayashi'', ''Yamashita'',
         ''Getsinger'', ''Schneider'', ''Pramanick'', ''Hammerstad'']),
      (''MLIN'', ''Model'', [''Wheeler'', ''Schneider'', ''Hammerstad'']),
      (''CLIN'', ''Backside'', [''Metal'', ''Air'']),
      (''SW'', ''Type'', [''lin'', ''log'', ''list'', ''const'']),
      (''SPfile'', ''Data'', [''rectangular'', ''polar'']),
      (''MSTEP'', ''MSDispModel'', [''Kirschning'', ''Kobayashi'', ''Yamashita'',
         ''Getsinger'', ''Schneider'', ''Pramanick'', ''Hammerstad'']),
      (''MSTEP'', ''MSModel'', [''Wheeler'', ''Schneider'', ''Hammerstad'']),
      (''MOPEN'', ''MSDispModel'', [''Kirschning'', ''Kobayashi'', ''Yamashita'',
         ''Getsinger'', ''Schneider'', ''Pramanick'', ''Hammerstad'']),
      (''MOPEN'', ''MSModel'', [''Wheeler'', ''Schneider'', ''Hammerstad'']),
      (''MOPEN'', ''Model'', [''Kirschning'', ''Hammerstad'', ''Alexopoulos'']),
      (''MGAP'', ''MSDispModel'', [''Kirschning'', ''Kobayashi'', ''Yamashita'',
         ''Getsinger'', ''Schneider'', ''Pramanick'', ''Hammerstad'']),
      (''MGAP'', ''MSModel'', [''Wheeler'', ''Schneider'', ''Hammerstad'']),
      (''MCOUPLED'', ''Model'', [''Kirschning'', ''Hammerstad'']),
      (''MCOUPLED'', ''DispModel'', [''Kirschning'', ''Getsinger''])]"

text \<open>\<^verbatim>\<open>checker_validate_special\<close>: \<open>found\<close> is never reset between the special
  entries. The statement \<open>d\<close> is only used in the log message.\<close>

fun validate_special_loop ::
  "special_t list \<Rightarrow> definition_t list \<Rightarrow> string \<Rightarrow> nat \<Rightarrow> nat" where
  "validate_special_loop [] rt idt found = found"
| "validate_special_loop ((t, k, vs) # specials) rt idt found =
     validate_special_loop specials rt idt
       (if checker_find_variable rt t k (Some idt) \<noteq> None
        then found + length (filter (\<lambda>v. v = idt) vs)
        else found)"

definition checker_validate_special ::
  "definition_t list \<Rightarrow> definition_t \<Rightarrow> string \<Rightarrow> nat" where
  "checker_validate_special rt d idt = validate_special_loop checker_specials rt idt 0"

fun find_substrate_loop ::
  "string list \<Rightarrow> definition_t \<Rightarrow> string option \<Rightarrow> value_t option" where
  "find_substrate_loop [] d idt = None"
| "find_substrate_loop (s # ss) d idt =
     (if s = type (attrs d) then
        (case checker_find_reference d ''Subst'' of
           Some val \<Rightarrow>
             if idt \<noteq> None \<and> ident val = idt then Some val
             else find_substrate_loop ss d idt
         | None \<Rightarrow> find_substrate_loop ss d idt)
      else find_substrate_loop ss d idt)"

definition checker_find_substrate :: "definition_t \<Rightarrow> string option \<Rightarrow> value_t option" where
  "checker_find_substrate d idt = find_substrate_loop strip_available d idt"

subsection \<open>Resolving identifiers\<close>

text \<open>A write through a \<^verbatim>\<open>struct value_t *\<close> that points to the first value of property
  \<open>j\<close> of statement \<open>i\<close>.\<close>

definition update_pair_value :: "(value_t \<Rightarrow> value_t) \<Rightarrow> nat \<Rightarrow> pair_t list \<Rightarrow> pair_t list" where
  "update_pair_value f j ps = ps[j := (ps ! j)\<lparr>pvalue := f (pvalue (ps ! j))\<rparr>]"

definition update_value ::
  "(value_t \<Rightarrow> value_t) \<Rightarrow> nat \<times> nat \<Rightarrow> definition_t list \<Rightarrow> definition_t list" where
  "update_value f pos rt =
     (case pos of (i, j) \<Rightarrow>
        rt[i := map_attrs (\<lambda>a. a\<lparr>pairs := update_pair_value f j (pairs a)\<rparr>) (rt ! i)])"

text \<open>The body of \<^verbatim>\<open>checker_resolve_variable\<close> for a value with identifier \<open>idt\<close>: the
  six lookups in the order of the source; it returns \<open>found\<close> and the statement list with
  the tags written.\<close>

definition resolve_variable_found ::
  "definition_t list \<Rightarrow> nat \<Rightarrow> nat \<Rightarrow> string \<Rightarrow> nat \<times> definition_t list" where
  "resolve_variable_found rt i j idt =
     (let found = 0;
          (found, rt) =
            (case checker_find_variable rt ''SW'' ''Param'' (Some idt) of
               Some pos \<Rightarrow>
                 (found + 1,
                  update_value (\<lambda>v. v\<lparr>var := TAG_DOUBLE\<rparr>) (i, j)
                    (update_value (\<lambda>v. v\<lparr>var := TAG_DOUBLE\<rparr>) pos rt))
             | None \<Rightarrow> (found, rt));
          found =
            (if checker_find_variable rt ''SW'' ''Sim'' (Some idt) \<noteq> None
             then found + 1 else found);
          (found, rt) =
            (if checker_find_substrate (rt ! i) (Some idt) \<noteq> None
             then (found + 1, update_value (\<lambda>v. v\<lparr>subst := 1\<rparr>) (i, j) rt)
             else (found, rt));
          found =
            (if checker_find_variable rt ''Sub'' ''Type'' (Some idt) \<noteq> None
             then found + 1 else found);
          found =
            (if checker_validate_special rt (rt ! i) idt \<noteq> 0
             then found + 1 else found);
          found =
            (if checker_find_variable rt ''SPfile'' ''File'' (Some idt) \<noteq> None
             then found + 1 else found)
      in (found, rt))"

text \<open>\<^verbatim>\<open>checker_resolve_variable (root, def, value)\<close>, where \<^verbatim>\<open>def\<close> is statement \<open>i\<close>
  of \<open>rt\<close> and \<^verbatim>\<open>value\<close> is the first value of its property \<open>j\<close>. It returns zero
  when the identifier is not found anywhere.\<close>

definition checker_resolve_variable ::
  "definition_t list \<Rightarrow> nat \<Rightarrow> nat \<Rightarrow> int \<times> definition_t list" where
  "checker_resolve_variable rt i j =
     (case ident (pvalue (pairs (attrs (rt ! i)) ! j)) of
        None \<Rightarrow> (1, rt)
      | Some idt \<Rightarrow>
          (let (found, rt') = resolve_variable_found rt i j idt
           in if found = 0 then (0, rt') else (1, rt')))"

subsection \<open>Unit scales\<close>

text \<open>The \<^verbatim>\<open>switch (*scale)\<close> of \<^verbatim>\<open>checker_evaluate_scale\<close>: from the value and the scale
  string to the value, the factor and the rest of the scale string. The empty string
  stands for a pointer to the terminating \<^verbatim>\<open>'\0'\<close>, which matches no case.
  \<^verbatim>\<open>pow (10.0, val / 10.0)\<close> is \<open>10 powr (val / 10)\<close>.\<close>

definition scale_switch :: "real \<Rightarrow> string \<Rightarrow> real \<times> real \<times> string" where
  "scale_switch val s =
     (case s of
        [] \<Rightarrow> (val, 1, s)
      | c # cs \<Rightarrow>
          if c = CHR ''T'' then (val, 10 ^ 12, cs)
          else if c = CHR ''G'' then (val, 10 ^ 9, cs)
          else if c = CHR ''M'' then (val, 10 ^ 6, cs)
          else if c = CHR ''k'' then (val, 10 ^ 3, cs)
          else if c = CHR ''m'' then (val, 1 / 10 ^ 3, cs)
          else if c = CHR ''u'' then (val, 1 / 10 ^ 6, cs)
          else if c = CHR ''n'' then (val, 1 / 10 ^ 9, cs)
          else if c = CHR ''p'' then (val, 1 / 10 ^ 12, cs)
          else if c = CHR ''f'' then (val, 1 / 10 ^ 15, cs)
          else if c = CHR ''a'' then (val, 1 / 10 ^ 18, cs)
          else if c = CHR ''d'' then
            (case cs of
               [] \<Rightarrow> (val, 1, cs)
             | b # cs' \<Rightarrow>
                 if b = CHR ''B'' then
                   (case cs' of
                      [] \<Rightarrow> (10 powr (val / 10), 1, cs')
                    | m # cs'' \<Rightarrow>
                        if m = CHR ''m'' then (10 powr (val / 10), 1 / 10 ^ 3, cs'')
                        else (10 powr (val / 10), 1, cs'))
                 else (val, 1, cs))
          else (val, 1, s))"

text \<open>\<^verbatim>\<open>checker_evaluate_scale\<close> returns 1 in every case, and the value with the scale
  folded into the number; a rest of the scale string becomes the unit.\<close>

definition checker_evaluate_scale :: "value_t \<Rightarrow> int \<times> value_t" where
  "checker_evaluate_scale v =
     (case scale v of
        None \<Rightarrow> (1, v\<lparr>value := value v * 1\<rparr>)
      | Some s \<Rightarrow>
          (case scale_switch (value v) s of (val, factor, rest) \<Rightarrow>
             (1, v\<lparr>value := val * factor,
                   scale := None,
                   unit := (if rest \<noteq> [] then Some rest else unit v)\<rparr>)))"

text \<open>A numeric value as the parser leaves it: no identifier, no unit, tags cleared.\<close>

definition parsed_number :: "real \<Rightarrow> string option \<Rightarrow> value_t" where
  "parsed_number x s =
     \<lparr>ident = None, value = x, scale = s, unit = None, var = TAG_UNKNOWN, subst = 0\<rparr>"

text \<open>What is left of a value, a property and a statement when the tags written by the
  resolver (\<open>var\<close> and \<open>subst\<close>) are cleared: two statement lists that agree after
  \<open>untag_definition\<close> differ in these tags only.\<close>

definition untag_value :: "value_t \<Rightarrow> value_t" where
  "untag_value v = v\<lparr>var := TAG_UNKNOWN, subst := 0\<rparr>"

definition untag_pair :: "pair_t \<Rightarrow> pair_t" where
  "untag_pair p = p\<lparr>pvalue := untag_value (pvalue p)\<rparr>"

definition untag_definition :: "definition_t \<Rightarrow> definition_t" where
  "untag_definition d = map_attrs (\<lambda>a. a\<lparr>pairs := map untag_pair (pairs a)\<rparr>) d"

text \<open>An identifier-valued property as the parser leaves it.\<close>

definition parsed_ident :: "string \<Rightarrow> value_t" where
  "parsed_ident s =
     \<lparr>ident = Some s, value = 0, scale = None, unit = None, var = TAG_UNKNOWN, subst = 0\<rparr>"

text \<open>A statement as the parser leaves it: all annotations cleared.\<close>

definition parsed_node :: "string \<Rightarrow> node_t" where
  "parsed_node n = \<lparr>node = Some n, xlate = None, xlatenr = 0\<rparr>"

definition parsed_definition ::
  "string \<Rightarrow> string \<Rightarrow> int \<Rightarrow> string list \<Rightarrow> pair_t list \<Rightarrow> definition_t list \<Rightarrow> definition_t" where
  "parsed_definition t i a ns ps body =
     Definition
       \<lparr>type = t, instance = i, line = 0, action = a, nodeset = 0, nonlinear = 0,
        substrate = 0, duplicate = 0, copy = 0, ncount = 0, nodes = map parsed_node ns,
        pairs = ps, define = None, subcircuit = None\<rparr>
       body"

text \<open>A resistor whose value is the identifier \<open>Rval\<close>, and a parameter sweep of
  \<open>Rval\<close>.\<close>

definition example_sweep :: "definition_t list" where
  "example_sweep =
     [parsed_definition ''R'' ''R1'' 0 [''n1'', ''gnd'']
        [\<lparr>key = ''R'', pvalue = parsed_ident ''Rval'', pnext = []\<rparr>] [],
      parsed_definition ''SW'' ''SW1'' 1 []
        [\<lparr>key = ''Param'', pvalue = parsed_ident ''Rval'', pnext = []\<rparr>,
         \<lparr>key = ''Sim'', pvalue = parsed_ident ''DC1'', pnext = []\<rparr>] []]"

subsection \<open>Counting statements, subcircuit lookup\<close>

text \<open>\<^verbatim>\<open>checker_count_definitions (root, type, action)\<close>; \<open>None\<close> is the type
  \<^verbatim>\<open>NULL\<close>, which counts every statement with the given action flag.\<close>

fun checker_count_definitions :: "definition_t list \<Rightarrow> string option \<Rightarrow> int \<Rightarrow> nat" where
  "checker_count_definitions [] t a = 0"
| "checker_count_definitions (d # ds) t a =
     (if action (attrs d) = a then
        (case t of None \<Rightarrow> 1 | Some ty \<Rightarrow> if type (attrs d) = ty then 1 else 0)
      else 0) + checker_count_definitions ds t a"

text \<open>\<^verbatim>\<open>checker_find_subcircuit\<close> searches the global \<^verbatim>\<open>subcircuit_root\<close>, here the
  argument \<open>reg\<close>.\<close>

fun checker_find_subcircuit :: "definition_t list \<Rightarrow> string option \<Rightarrow> definition_t option" where
  "checker_find_subcircuit [] n = None"
| "checker_find_subcircuit (d # ds) n =
     (if n \<noteq> None \<and> Some (instance (attrs d)) = n then Some d
      else checker_find_subcircuit ds n)"

definition checker_get_subcircuit :: "definition_t list \<Rightarrow> definition_t \<Rightarrow> definition_t option" where
  "checker_get_subcircuit reg d =
     (case checker_find_reference d ''Type'' of
        Some val \<Rightarrow> checker_find_subcircuit reg (ident val)
      | None \<Rightarrow> None)"

text \<open>\<^verbatim>\<open>checker_count_nonlinearities\<close> recurses into the body of the template of every
  \<^verbatim>\<open>Sub\<close> statement while the global \<^verbatim>\<open>checker_sub_cycles\<close> (the argument
  \<open>sub_cycles\<close>) is not positive. Nothing bounds this recursion, so the result is
  \<open>None\<close> when it does not return.\<close>

partial_function (option) checker_count_nonlinearities ::
  "int \<Rightarrow> definition_t list \<Rightarrow> definition_t list \<Rightarrow> nat option" where
  "checker_count_nonlinearities sub_cycles reg rt =
     (case rt of
        [] \<Rightarrow> Some 0
      | d # ds \<Rightarrow>
          Option.bind
            (if sub_cycles \<le> 0 \<and> type (attrs d) = ''Sub'' then
               (case checker_get_subcircuit reg d of
                  Some s \<Rightarrow> checker_count_nonlinearities sub_cycles reg (sub s)
                | None \<Rightarrow> Some 0)
             else Some 0)
            (\<lambda>c. Option.bind (checker_count_nonlinearities sub_cycles reg ds)
               (\<lambda>r. Some ((if nonlinear (attrs d) \<noteq> 0 then 1 else 0) + c + r))))"

fun checker_count_action :: "definition_t list \<Rightarrow> string \<Rightarrow> nat" where
  "checker_count_action [] i = 0"
| "checker_count_action (d # ds) i =
     (if action (attrs d) = 1 \<and> instance (attrs d) = i then 1 else 0) +
     checker_count_action ds i"

subsection \<open>Parameter sweeps\<close>

text \<open>\<^verbatim>\<open>checker_validate_para_cycles\<close>: \<open>defs\<close> is the rest of the loop over \<open>rt\<close>.
  The dependency list \<open>deps\<close> is shared by all calls and only grows. \<open>the\<close> is applied
  to the identifier of a value that \<^verbatim>\<open>checker_find_reference\<close> returned, which is never
  \<^verbatim>\<open>NULL\<close>.\<close>

function para_cycles_loop ::
  "definition_t list \<Rightarrow> definition_t list \<Rightarrow> string \<Rightarrow> string list \<Rightarrow> checker_error list" where
  "para_cycles_loop rt [] i deps = []"
| "para_cycles_loop rt (d # ds) i deps =
     (if action (attrs d) = 1 \<and> instance (attrs d) = i then
        (if i \<in> set deps then [Err CyclicSweep (i # deps)]
         else if type (attrs d) = ''SW'' \<and> checker_find_reference d ''Sim'' \<noteq> None then
           para_cycles_loop rt rt (the (ident (the (checker_find_reference d ''Sim'')))) (deps @ [i])
         else para_cycles_loop rt ds i (deps @ [i]))
      else para_cycles_loop rt ds i deps)"
  by pat_completeness auto
termination
proof (relation "inv_image (less_than <*lex*> less_than) (\<lambda>(rt, defs, i, deps).
          (card ((\<lambda>d. instance (attrs d)) ` (set rt \<union> set defs) - set deps),
           length defs))", goal_cases)
  case 1
  show ?case by (intro wf_inv_image wf_lex_prod wf_less_than)
next
  case (2 rt d ds i deps)
  then have "(\<lambda>d. instance (attrs d)) ` (set rt \<union> set rt) - set (deps @ [i])
      \<subset> (\<lambda>d. instance (attrs d)) ` (set rt \<union> set (d # ds)) - set deps"
    by auto
  then show ?case by (simp add: psubset_card_mono)
next
  case (3 rt d ds i deps)
  then have "(\<lambda>d. instance (attrs d)) ` (set rt \<union> set ds) - set (deps @ [i])
      \<subset> (\<lambda>d. instance (attrs d)) ` (set rt \<union> set (d # ds)) - set deps"
    by auto
  then show ?case by (simp add: psubset_card_mono)
next
  case (4 rt d ds i deps)
  have "card ((\<lambda>d. instance (attrs d)) ` (set rt \<union> set ds) - set deps)
      \<le> card ((\<lambda>d. instance (attrs d)) ` (set rt \<union> set (d # ds)) - set deps)"
    by (rule card_mono) auto
  then show ?case by auto
qed

definition checker_validate_para_cycles ::
  "definition_t list \<Rightarrow> string \<Rightarrow> string list \<Rightarrow> checker_error list" where
  "checker_validate_para_cycles rt i deps = para_cycles_loop rt rt i deps"

fun validate_para_loop :: "definition_t list \<Rightarrow> definition_t list \<Rightarrow> checker_error list" where
  "validate_para_loop rt [] = []"
| "validate_para_loop rt (d # ds) =
     (if action (attrs d) = 1 \<and> type (attrs d) = ''SW'' then
        (case checker_validate_reference d ''Sim'' of
           None \<Rightarrow> [Err InvalidReference [type (attrs d), instance (attrs d), ''Sim'']]
         | Some val \<Rightarrow>
             (if instance (attrs d) = the (ident val)
              then [Err SelfReferringSweep [type (attrs d), instance (attrs d)]] else []) @
             (if checker_count_action rt (the (ident val)) \<noteq> 1
              then [Err UnknownAction [type (attrs d), instance (attrs d), the (ident val)]]
              else []) @
             checker_validate_para_cycles rt (the (ident val)) [])
      else []) @ validate_para_loop rt ds"

definition checker_validate_para :: "definition_t list \<Rightarrow> checker_error list" where
  "checker_validate_para rt = validate_para_loop rt rt"

subsection \<open>Ports\<close>

text \<open>The conversion \<^verbatim>\<open>(int) val->value\<close> truncates towards zero (a value outside the
  range of \<^verbatim>\<open>int\<close> is undefined behaviour in C and is not modelled).\<close>

definition double_to_int :: "real \<Rightarrow> int" where
  "double_to_int x = (if 0 \<le> x then \<lfloor>x\<rfloor> else \<lceil>x\<rceil>)"

definition is_port :: "definition_t \<Rightarrow> bool" where
  "is_port d = (action (attrs d) = PROP_COMPONENT \<and> type (attrs d) = ''Pac'')"

text \<open>\<^verbatim>\<open>checker_find_port\<close> returns the next port from a position of the list on: the
  offset of the first port of the given rest of the list.\<close>

fun checker_find_port :: "definition_t list \<Rightarrow> nat option" where
  "checker_find_port [] = None"
| "checker_find_port (d # ds) = (if is_port d then Some 0 else map_option Suc (checker_find_port ds))"

text \<open>The inner loop of \<^verbatim>\<open>checker_validate_ports\<close> visits every port of the list
  (\<^verbatim>\<open>checker_find_port\<close>, then \<^verbatim>\<open>port = port->next\<close>); \<open>k\<close> is the index of the statement
  \<open>port\<close>, \<open>i\<close> the index of \<^verbatim>\<open>def\<close> (the test \<^verbatim>\<open>port != def\<close> compares pointers) and
  \<open>p\<close> its port number.\<close>

fun validate_ports_inner ::
  "definition_t list \<Rightarrow> nat \<Rightarrow> nat \<Rightarrow> definition_t \<Rightarrow> int \<Rightarrow> checker_error list" where
  "validate_ports_inner [] k i d p = []"
| "validate_ports_inner (port # rest) k i d p =
     (if is_port port \<and> k \<noteq> i then
        (case checker_find_prop_value port ''Num'' of
           Some (j, pr) \<Rightarrow>
             if p = double_to_int (value (pvalue pr))
             then [Err DuplicatePortNumber
                     [type (attrs d), instance (attrs d), type (attrs port), instance (attrs port)]]
             else []
         | None \<Rightarrow> [])
      else []) @ validate_ports_inner rest (Suc k) i d p"

text \<open>The outer loop, over the statements \<open>defs\<close> from index \<open>i\<close> on.\<close>

fun validate_ports_outer ::
  "definition_t list \<Rightarrow> definition_t list \<Rightarrow> nat \<Rightarrow> checker_error list" where
  "validate_ports_outer rt [] i = []"
| "validate_ports_outer rt (d # ds) i =
     (if is_port d then
        (case checker_find_prop_value d ''Num'' of
           Some (j, pr) \<Rightarrow> validate_ports_inner rt 0 i d (double_to_int (value (pvalue pr)))
         | None \<Rightarrow> [])
      else []) @ validate_ports_outer rt ds (Suc i)"

definition checker_validate_ports :: "definition_t list \<Rightarrow> checker_error list" where
  "checker_validate_ports rt = validate_ports_outer rt rt 0"


subsection \<open>Sweep properties\<close>

text \<open>The evaluation of the unit scales of a value list \<^verbatim>\<open>for (; val != NULL; val =
  val->next)\<close> in \<^verbatim>\<open>checker_validate_lists\<close>: one error for every value whose evaluation
  returns zero.\<close>

definition evaluate_scale_errors :: "definition_t \<Rightarrow> value_t list \<Rightarrow> checker_error list" where
  "evaluate_scale_errors d vs =
     concat (map (\<lambda>v. if fst (checker_evaluate_scale v) = 0
                        then [Err ScaleError [type (attrs d), instance (attrs d), ''Values'']]
                        else []) vs)"

text \<open>The \<^verbatim>\<open>Values\<close> branch for the property at index \<open>j\<close>: the tag
  \<^verbatim>\<open>val->var = eqn::TAG_VECTOR\<close> is written to the first value, then every value of the
  list is evaluated.\<close>

definition evaluate_values :: "pair_t \<Rightarrow> pair_t" where
  "evaluate_values pr =
     pr\<lparr>pvalue := snd (checker_evaluate_scale ((pvalue pr)\<lparr>var := TAG_VECTOR\<rparr>)),
        pnext := map (\<lambda>v. snd (checker_evaluate_scale v)) (pnext pr)\<rparr>"

text \<open>The body of the loop of \<^verbatim>\<open>checker_validate_lists\<close> for one statement. The source
  reads \<^verbatim>\<open>val->ident\<close> of the \<^verbatim>\<open>Type\<close> reference without testing \<^verbatim>\<open>val\<close>: where
  there is no such reference the program dereferences \<^verbatim>\<open>NULL\<close>, and the result is
  \<open>None\<close>.\<close>

definition validate_lists_def ::
  "definition_t \<Rightarrow> (checker_error list \<times> definition_t) option" where
  "validate_lists_def d =
     (if action (attrs d) = 1 \<and>
         (type (attrs d) = ''SW'' \<or> type (attrs d) = ''AC'' \<or> type (attrs d) = ''SP'') then
        (case checker_find_reference d ''Type'' of
           None \<Rightarrow> None
         | Some val \<Rightarrow>
             let ty = ident val;
                 about = (\<lambda>k. [type (attrs d), instance (attrs d), k])
             in
             if ty \<noteq> None \<and> (ty = Some ''const'' \<or> ty = Some ''list'') then
               (let (errors, d) =
                      (case checker_find_prop_value d ''Values'' of
                         None \<Rightarrow> ([Err MissingSweepProperty (about ''Values'')], d)
                       | Some (j, pr) \<Rightarrow>
                           ((if ty = Some ''const'' \<and> pnext pr \<noteq> []
                             then [Err SweepNotSingleValue [type (attrs d), instance (attrs d)]]
                             else []) @
                            evaluate_scale_errors d
                              ((pvalue pr)\<lparr>var := TAG_VECTOR\<rparr> # pnext pr),
                            map_attrs (\<lambda>a. a\<lparr>pairs := (pairs a)[j := evaluate_values pr]\<rparr>) d));
                    errors = errors @
                      (if checker_find_prop_value d ''Start'' \<noteq> None
                       then [Err ExtraneousSweepProperty (about ''Start'')] else []);
                    errors = errors @
                      (if checker_find_prop_value d ''Stop'' \<noteq> None
                       then [Err ExtraneousSweepProperty (about ''Stop'')] else []);
                    errors = errors @
                      (if checker_find_prop_value d ''Points'' \<noteq> None
                       then [Err ExtraneousSweepProperty (about ''Points'')] else [])
                in Some (errors, d))
             else if ty \<noteq> None \<and> (ty = Some ''lin'' \<or> ty = Some ''log'') then
               Some
                 ((if checker_find_prop_value d ''Start'' = None
                   then [Err MissingSweepProperty (about ''Start'')] else []) @
                  (if checker_find_prop_value d ''Stop'' = None
                   then [Err MissingSweepProperty (about ''Stop'')] else []) @
                  (if checker_find_prop_value d ''Points'' = None
                   then [Err MissingSweepProperty (about ''Points'')] else []) @
                  (if checker_find_prop_value d ''Values'' \<noteq> None
                   then [Err ExtraneousSweepProperty (about ''Values'')] else []),
                  d)
             else Some ([], d))
      else Some ([], d))"

fun checker_validate_lists ::
  "definition_t list \<Rightarrow> (checker_error list \<times> definition_t list) option" where
  "checker_validate_lists [] = Some ([], [])"
| "checker_validate_lists (d # ds) =
     (case validate_lists_def d of
        None \<Rightarrow> None
      | Some (errors, d') \<Rightarrow>
          (case checker_validate_lists ds of
             None \<Rightarrow> None
           | Some (errors', ds') \<Rightarrow> Some (errors @ errors', d' # ds')))"

subsection \<open>Actions\<close>

text \<open>The first part of \<^verbatim>\<open>checker_validate_actions\<close>, up to the check of the DC
  requirement.\<close>

definition validate_actions_dc ::
  "int \<Rightarrow> definition_t list \<Rightarrow> definition_t list \<Rightarrow> checker_error list option" where
  "validate_actions_dc sub_cycles reg rt =
     (if checker_count_definitions rt None 1 < 1 then Some [Err NoActions []]
      else
        (let a = checker_count_definitions rt (Some ''SP'') 1;
             errors =
               (if a \<ge> 1 \<and> checker_count_definitions rt (Some ''Pac'') 0 < 1
                then [Err MissingPac []] else []);
             a = a + checker_count_definitions rt (Some ''AC'') 1
         in
         (case checker_count_nonlinearities sub_cycles reg rt of
            None \<Rightarrow> None
          | Some c \<Rightarrow>
              (let n = checker_count_definitions rt (Some ''DC'') 1;
                   errors = errors @ (if n > 1 then [Err ExcessDcAction []] else []);
                   errors = errors @
                     (if a \<ge> 1 \<and> c \<ge> 1 \<and> n < 1 then [Err MissingDcAction []] else [])
               in Some errors))))"

text \<open>\<^verbatim>\<open>checker_validate_actions (root)\<close>; the global \<^verbatim>\<open>subcircuit_root\<close> and
  \<^verbatim>\<open>checker_sub_cycles\<close> that it reads are arguments. It returns the errors and the list
  with the sweep values evaluated.\<close>

definition checker_validate_actions ::
  "int \<Rightarrow> definition_t list \<Rightarrow> definition_t list \<Rightarrow>
   (checker_error list \<times> definition_t list) option" where
  "checker_validate_actions sub_cycles reg rt =
     (case validate_actions_dc sub_cycles reg rt of
        None \<Rightarrow> None
      | Some errors \<Rightarrow>
          (let errors = errors @ checker_validate_para rt;
               errors = errors @ checker_validate_ports rt
           in (case checker_validate_lists rt of
                 None \<Rightarrow> None
               | Some (errors', rt') \<Rightarrow> Some (errors @ errors', rt'))))"


text \<open>An action statement \<^verbatim>\<open>.AC:AC1 Type="lin" Start="1" Stop="10" Points="3"\<close>, and one
  without the \<^verbatim>\<open>Type\<close> property.\<close>

definition example_ac :: definition_t where
  "example_ac =
     parsed_definition ''AC'' ''AC1'' 1 []
       [\<lparr>key = ''Type'', pvalue = parsed_ident ''lin'', pnext = []\<rparr>,
        \<lparr>key = ''Start'', pvalue = parsed_number 1 None, pnext = []\<rparr>,
        \<lparr>key = ''Stop'', pvalue = parsed_number 10 None, pnext = []\<rparr>,
        \<lparr>key = ''Points'', pvalue = parsed_number 3 None, pnext = []\<rparr>] []"

definition example_ac_untyped :: definition_t where
  "example_ac_untyped =
     parsed_definition ''AC'' ''AC2'' 1 []
       [\<lparr>key = ''Start'', pvalue = parsed_number 1 None, pnext = []\<rparr>] []"

text \<open>A resistor \<^verbatim>\<open>R:R1 n1 gnd R="50"\<close> and a diode \<^verbatim>\<open>Diode:D1 n1 gnd\<close>, the diode
  already marked nonlinear as the per-statement check does.\<close>

definition example_resistor :: definition_t where
  "example_resistor =
     parsed_definition ''R'' ''R1'' 0 [''n1'', ''gnd'']
       [\<lparr>key = ''R'', pvalue = parsed_number 50 None, pnext = []\<rparr>] []"

definition example_diode :: definition_t where
  "example_diode =
     map_attrs (\<lambda>a. a\<lparr>nonlinear := 1\<rparr>) (parsed_definition ''Diode'' ''D1'' 0 [''n1'', ''gnd''] [] [])"

text \<open>A statement on which the sweep check reads the \<^verbatim>\<open>Type\<close> reference.\<close>

definition is_sweep_action :: "definition_t \<Rightarrow> bool" where
  "is_sweep_action d =
     (action (attrs d) = 1 \<and>
      (type (attrs d) = ''SW'' \<or> type (attrs d) = ''AC'' \<or> type (attrs d) = ''SP''))"

subsection \<open>Cyclic subcircuit definitions\<close>

text \<open>\<^verbatim>\<open>checker_validate_sub_cycles (root, type, instance, deps)\<close> and the loop over the
  body of the template \<^verbatim>\<open>root\<close>. The list \<^verbatim>\<open>*deps\<close> is written through the pointer, so
  the function returns it with its errors: after a call without errors the caller puts
  its copy back, after a call with errors it goes on with the list the call left. The
  template of a nested instance is looked up with \<^verbatim>\<open>checker_find_subcircuit\<close> and
  dereferenced without a test: the result is \<open>None\<close> where there is no such template.\<close>

function checker_validate_sub_cycles ::
    "definition_t list \<Rightarrow> definition_t \<Rightarrow> string \<Rightarrow> string \<Rightarrow> string list \<Rightarrow>
     (checker_error list \<times> string list) option"
  and sub_cycles_loop ::
    "definition_t list \<Rightarrow> definition_t list \<Rightarrow> string \<Rightarrow> string list \<Rightarrow> string list \<Rightarrow>
     checker_error list \<Rightarrow> (checker_error list \<times> string list) option" where
  "checker_validate_sub_cycles reg rt ty inst deps =
     (if ty \<in> set deps then Some ([Err CyclicSubcircuit (ty # inst # deps)], deps)
      else sub_cycles_loop reg (sub rt) inst (deps @ [ty]) [] [])"
| "sub_cycles_loop reg [] inst deps checked errors = Some (errors, deps)"
| "sub_cycles_loop reg (d # ds) inst deps checked errors =
     (if type (attrs d) = ''Sub'' then
        (case checker_find_reference d ''Type'' of
           None \<Rightarrow> sub_cycles_loop reg ds inst deps checked errors
         | Some val \<Rightarrow>
             if the (ident val) \<in> set checked
             then sub_cycles_loop reg ds inst deps checked errors
             else
               (case checker_find_subcircuit reg (ident val) of
                  None \<Rightarrow> None
                | Some s \<Rightarrow>
                    (case checker_validate_sub_cycles reg s (instance (attrs s)) inst deps of
                       None \<Rightarrow> None
                     | Some (error, deps') \<Rightarrow>
                         if error \<noteq> []
                         then sub_cycles_loop reg ds inst deps'
                                (checked @ [the (ident val)]) (errors @ error)
                         else sub_cycles_loop reg ds inst deps
                                (checked @ [the (ident val)]) errors)))
      else sub_cycles_loop reg ds inst deps checked errors)"
  by pat_completeness auto

lemma sub_cycles_deps_grow:
  "checker_validate_sub_cycles_sub_cycles_loop_dom (Inl (reg, rt, ty, inst, deps)) \<Longrightarrow>
     checker_validate_sub_cycles reg rt ty inst deps = Some (e, deps') \<Longrightarrow> set deps \<subseteq> set deps'"
  "checker_validate_sub_cycles_sub_cycles_loop_dom (Inr (reg, ds, inst, deps, checked, errors)) \<Longrightarrow>
     sub_cycles_loop reg ds inst deps checked errors = Some (e, deps') \<Longrightarrow> set deps \<subseteq> set deps'"
proof (induction reg rt ty inst deps and reg ds inst deps checked errors
       arbitrary: e deps' and e deps'
       rule: checker_validate_sub_cycles_sub_cycles_loop.pinduct)
  case (1 reg rt ty inst deps)
  then show ?case
    by (auto simp add: checker_validate_sub_cycles.psimps split: if_splits)
next
  case (2 reg inst deps checked errors)
  then show ?case by (simp add: sub_cycles_loop.psimps)
next
  case (3 reg d ds inst deps checked errors)
  note dom = "3.hyps" and IH = "3.IH" and res = "3.prems"
  show ?case
  proof (cases "type (attrs d) = ''Sub''")
    case False
    with res dom have "sub_cycles_loop reg ds inst deps checked errors = Some (e, deps')"
      by (simp add: sub_cycles_loop.psimps)
    with IH(6) [OF False] show ?thesis .
  next
    case True
    show ?thesis
    proof (cases "checker_find_reference d ''Type''")
      case None
      with res dom True have "sub_cycles_loop reg ds inst deps checked errors = Some (e, deps')"
        by (simp add: sub_cycles_loop.psimps)
      with IH(1) [OF True None] show ?thesis .
    next
      case (Some val)
      show ?thesis
      proof (cases "the (ident val) \<in> set checked")
        case c: True
        with res dom True Some
        have "sub_cycles_loop reg ds inst deps checked errors = Some (e, deps')"
          by (simp add: sub_cycles_loop.psimps)
        with IH(2) [OF True Some c] show ?thesis .
      next
        case c: False
        from res dom True Some c obtain s error deps1
          where s: "checker_find_subcircuit reg (ident val) = Some s"
            and r: "checker_validate_sub_cycles reg s (instance (attrs s)) inst deps =
                      Some (error, deps1)"
          by (auto simp add: sub_cycles_loop.psimps split: option.splits)
        from IH(3) [OF True Some c s r] have g: "set deps \<subseteq> set deps1" .
        show ?thesis
        proof (cases "error = []")
          case e: True
          with res dom True Some c s r
          have "sub_cycles_loop reg ds inst deps (checked @ [the (ident val)]) errors =
                  Some (e, deps')"
            by (simp add: sub_cycles_loop.psimps)
          with IH(5) [OF True Some c s r refl] e show ?thesis by simp
        next
          case e: False
          with res dom True Some c s r
          have "sub_cycles_loop reg ds inst deps1 (checked @ [the (ident val)]) (errors @ error) =
                  Some (e, deps')"
            by (simp add: sub_cycles_loop.psimps)
          with IH(4) [OF True Some c s r refl e] have "set deps1 \<subseteq> set deps'" .
          with g show ?thesis by (rule subset_trans)
        qed
      qed
    qed
  qed
qed
lemma find_subcircuit_Some:
  "checker_find_subcircuit reg n = Some s \<Longrightarrow> s \<in> set reg \<and> n = Some (instance (attrs s))"
  by (induction reg) (auto split: if_splits)

termination checker_validate_sub_cycles
proof (relation "inv_image (less_than <*lex*> less_than)
     (\<lambda>x. case x of
        Inl (reg, rt, ty, inst, deps) \<Rightarrow>
          (if ty \<in> set deps then 0
           else 3 * card ((\<lambda>d. instance (attrs d)) ` set reg - set deps - {ty}) + 2, 0)
      | Inr (reg, ds, inst, deps, checked, errors) \<Rightarrow>
          (3 * card ((\<lambda>d. instance (attrs d)) ` set reg - set deps) + 1, length ds))",
    goal_cases)
  case 1
  show ?case by (intro wf_inv_image wf_lex_prod wf_less_than)
next
  case (2 reg rt ty inst deps)
  have "(\<lambda>d. instance (attrs d)) ` set reg - set (deps @ [ty]) =
      (\<lambda>d. instance (attrs d)) ` set reg - set deps - {ty}"
    by auto
  with 2 show ?case by (simp del: set_append)
next
  case 3
  then show ?case by simp
next
  case 4
  then show ?case by simp
next
  case (5 reg d ds inst deps checked errors val s)
  from find_subcircuit_Some [OF "5"(4)]
  have mem: "instance (attrs s) \<in> (\<lambda>d. instance (attrs d)) ` set reg" by blast
  show ?case
  proof (cases "instance (attrs s) \<in> set deps")
    case True
    then show ?thesis by simp
  next
    case False
    with mem have "card ((\<lambda>d. instance (attrs d)) ` set reg - set deps - {instance (attrs s)})
        < card ((\<lambda>d. instance (attrs d)) ` set reg - set deps)"
      by (intro card_Diff1_less) auto
    with False show ?thesis by simp
  qed
next
  case (6 reg d ds inst deps checked errors val s r error deps1)
  from "6"(5,6) have "checker_validate_sub_cycles reg s (instance (attrs s)) inst deps =
      Some (error, deps1)" by simp
  from sub_cycles_deps_grow(1) [OF "6"(8) this]
  have "card ((\<lambda>d. instance (attrs d)) ` set reg - set deps1)
      \<le> card ((\<lambda>d. instance (attrs d)) ` set reg - set deps)"
    by (intro card_mono) auto
  then show ?case by auto
next
  case 7
  then show ?case by simp
next
  case 8
  then show ?case by simp
qed

text \<open>\<^verbatim>\<open>checker_validate_subcircuits (root)\<close>. It also writes the global
  \<^verbatim>\<open>checker_sub_cycles\<close> (\<open>sub_cycles\<close>): after every instance whose template exists the
  variable holds the number of errors of the cycle check of that instance.\<close>

fun checker_validate_subcircuits ::
  "definition_t list \<Rightarrow> int \<Rightarrow> definition_t list \<Rightarrow> (checker_error list \<times> int) option" where
  "checker_validate_subcircuits reg sub_cycles [] = Some ([], sub_cycles)"
| "checker_validate_subcircuits reg sub_cycles (d # ds) =
     (if type (attrs d) = ''Sub'' then
        (case checker_validate_reference d ''Type'' of
           None \<Rightarrow>
             map_option
               (\<lambda>(errors, sc). (Err InvalidReference [type (attrs d), instance (attrs d), ''Type'']
                                  # errors, sc))
               (checker_validate_subcircuits reg sub_cycles ds)
         | Some val \<Rightarrow>
             (case checker_find_subcircuit reg (ident val) of
                None \<Rightarrow>
                  map_option
                    (\<lambda>(errors, sc).
                       (Err UnknownSubcircuitType
                          [type (attrs d), instance (attrs d), the (ident val)] # errors, sc))
                    (checker_validate_subcircuits reg sub_cycles ds)
              | Some s \<Rightarrow>
                  (case checker_validate_sub_cycles reg s (instance (attrs s))
                          (instance (attrs d)) [] of
                     None \<Rightarrow> None
                   | Some (err, deps) \<Rightarrow>
                       map_option
                         (\<lambda>(errors, sc).
                            ((if checker_count_nodes d \<noteq> checker_count_nodes s
                              then [Err SubcircuitNodeArityMismatch
                                      [type (attrs d), instance (attrs d), instance (attrs s)]]
                              else []) @ err @ errors, sc))
                         (checker_validate_subcircuits reg (int (length err)) ds))))
      else checker_validate_subcircuits reg sub_cycles ds)"

subsection \<open>The instantiation graph of the subcircuit templates\<close>

text \<open>The types that the \<^verbatim>\<open>Sub\<close> statements of a template body refer to, in the order of
  the body.\<close>

fun sub_types :: "definition_t list \<Rightarrow> string list" where
  "sub_types [] = []"
| "sub_types (d # ds) =
     (if type (attrs d) = ''Sub'' then
        (case checker_find_reference d ''Type'' of
           None \<Rightarrow> sub_types ds
         | Some val \<Rightarrow> the (ident val) # sub_types ds)
      else sub_types ds)"

text \<open>Template \<open>A\<close> instantiates template \<open>B\<close>: the body of the template that
  \<^verbatim>\<open>checker_find_subcircuit\<close> finds for \<open>A\<close> has a \<^verbatim>\<open>Sub\<close> statement of type \<open>B\<close>.\<close>

definition instantiates :: "definition_t list \<Rightarrow> string \<Rightarrow> string \<Rightarrow> bool" where
  "instantiates reg A B =
     (\<exists>t. checker_find_subcircuit reg (Some A) = Some t \<and> B \<in> set (sub_types (sub t)))"

text \<open>Every type that is instantiated in the templates reachable from \<open>A\<close> (and \<open>A\<close>
  itself) names a template.\<close>

definition templates_resolved :: "definition_t list \<Rightarrow> string \<Rightarrow> bool" where
  "templates_resolved reg A =
     (\<forall>B. (instantiates reg)\<^sup>*\<^sup>* A B \<longrightarrow> checker_find_subcircuit reg (Some B) \<noteq> None)"

text \<open>A cycle of instantiations can be reached from \<open>A\<close>.\<close>

definition reaches_cycle :: "definition_t list \<Rightarrow> string \<Rightarrow> bool" where
  "reaches_cycle reg A =
     (\<exists>B. (instantiates reg)\<^sup>*\<^sup>* A B \<and> (instantiates reg)\<^sup>+\<^sup>+ B B)"

text \<open>The search from \<open>A\<close> with the templates \<open>D\<close> on the current path runs into a
  template of the path.\<close>

inductive hits_path :: "definition_t list \<Rightarrow> string set \<Rightarrow> string \<Rightarrow> bool"
  for reg :: "definition_t list" where
  on_path: "A \<in> D \<Longrightarrow> hits_path reg D A"
| descend: "instantiates reg A B \<Longrightarrow> hits_path reg (insert A D) B \<Longrightarrow> hits_path reg D A"

text \<open>A subcircuit instance \<^verbatim>\<open>Sub:name nodes Type="ty"\<close> and a template
  \<^verbatim>\<open>Def:name formal ... end\<close> as the parser leaves them.\<close>

definition sub_instance :: "string \<Rightarrow> string \<Rightarrow> string list \<Rightarrow> definition_t" where
  "sub_instance name ty ns =
     parsed_definition ''Sub'' name 0 ns
       [\<lparr>key = ''Type'', pvalue = parsed_ident ty, pnext = []\<rparr>] []"

definition template :: "string \<Rightarrow> string list \<Rightarrow> definition_t list \<Rightarrow> definition_t" where
  "template name formal body = parsed_definition ''Def'' name 0 formal [] body"

text \<open>Two templates that instantiate each other, and a chain of three templates.\<close>

definition example_cyclic :: "definition_t list" where
  "example_cyclic =
     [template ''A'' [''p''] [sub_instance ''X1'' ''B'' [''p'']],
      template ''B'' [''p''] [sub_instance ''X2'' ''A'' [''p'']]]"

definition example_chain :: "definition_t list" where
  "example_chain =
     [template ''T1'' [''p''] [sub_instance ''X1'' ''T2'' [''p'']],
      template ''T2'' [''p''] [sub_instance ''X2'' ''T3'' [''p'']],
      template ''T3'' [''p''] [example_diode]]"

text \<open>A template \<open>N\<close> with a diode and no instance in it, and a template \<open>A\<close> that
  instantiates itself; a netlist with an instance of \<open>N\<close> and an AC analysis, and no DC
  action.\<close>

definition example_flag_reg :: "definition_t list" where
  "example_flag_reg =
     [template ''N'' [''p''] [example_diode],
      template ''A'' [''p''] [sub_instance ''X2'' ''A'' [''p'']]]"

definition example_flag_netlist :: "definition_t list" where
  "example_flag_netlist = [sub_instance ''X1'' ''N'' [''n1''], example_ac]"

text \<open>What one statement adds to the count of \<^verbatim>\<open>checker_count_nonlinearities\<close>: one if it
  is nonlinear, and the count of the body of its template if it is a \<^verbatim>\<open>Sub\<close> statement
  with a template and the global flag is not positive.\<close>

definition nonlinear_here :: "definition_t \<Rightarrow> nat" where
  "nonlinear_here d = (if nonlinear (attrs d) \<noteq> 0 then 1 else 0)"

definition nonlinear_below :: "int \<Rightarrow> definition_t list \<Rightarrow> definition_t \<Rightarrow> nat" where
  "nonlinear_below sub_cycles reg d =
     (if sub_cycles \<le> 0 \<and> type (attrs d) = ''Sub'' then
        (case checker_get_subcircuit reg d of
           Some s \<Rightarrow> the (checker_count_nonlinearities sub_cycles reg (sub s))
         | None \<Rightarrow> 0)
      else 0)"

subsection \<open>Copying subcircuit elements\<close>

text \<open>\<^verbatim>\<open>checker_copy_subcircuit\<close>: the copy is allocated with \<^verbatim>\<open>calloc\<close>, takes the flags,
  the catalog entry, the type and the property list of the element, and is marked as a
  copy. It has no nodes and no instance name yet.\<close>

definition checker_copy_subcircuit :: "definition_t \<Rightarrow> definition_t" where
  "checker_copy_subcircuit s =
     Definition
       \<lparr>type = type (attrs s), instance = [], line = 0, action = action (attrs s),
        nodeset = nodeset (attrs s), nonlinear = nonlinear (attrs s),
        substrate = substrate (attrs s), duplicate = 0, copy = 1, ncount = 0, nodes = [],
        pairs = pairs (attrs s), define = define (attrs s), subcircuit = None\<rparr>
       []"

text \<open>\<^verbatim>\<open>checker_xlat_subcircuit_nodes (type, inst, sub)\<close> walks the formal nodes of the
  template and the nodes of the instance side by side; \<open>i\<close> is the 1-based position. The
  loop tests only the formal node and advances both pointers, so with fewer instance nodes
  than formal nodes it dereferences \<^verbatim>\<open>NULL\<close>: the result is \<open>None\<close>. It returns the nodes
  of the element with their translation written.\<close>

fun xlat_loop :: "node_t list \<Rightarrow> node_t list \<Rightarrow> int \<Rightarrow> node_t list \<Rightarrow> node_t list option" where
  "xlat_loop [] ninst i ns = Some ns"
| "xlat_loop (ntype # ntypes) [] i ns = None"
| "xlat_loop (ntype # ntypes) (ninst # ninsts) i ns =
     xlat_loop ntypes ninsts (i + 1)
       (map (\<lambda>n. if node n = node ntype then n\<lparr>xlate := node ninst, xlatenr := i\<rparr> else n) ns)"

definition checker_xlat_subcircuit_nodes ::
  "definition_t \<Rightarrow> definition_t \<Rightarrow> definition_t \<Rightarrow> definition_t option" where
  "checker_xlat_subcircuit_nodes ty inst s =
     map_option (\<lambda>ns. map_attrs (\<lambda>a. a\<lparr>nodes := ns\<rparr>) s)
       (xlat_loop (nodes (attrs ty)) (nodes (attrs inst)) 1 (nodes (attrs s)))"

text \<open>\<^verbatim>\<open>checker_subcircuit_node\<close> and \<^verbatim>\<open>checker_subcircuit_instance\<close>: the \<^verbatim>\<open>sprintf\<close>
  formats \<^verbatim>\<open>"%s.%s.%s.%s"\<close> and \<^verbatim>\<open>"%s.%s.%s"\<close>.\<close>

definition checker_subcircuit_node ::
  "string \<Rightarrow> string option \<Rightarrow> string \<Rightarrow> string \<Rightarrow> string" where
  "checker_subcircuit_node ty instances inst n =
     (case instances of
        Some l \<Rightarrow> ty @ ''.'' @ l @ ''.'' @ inst @ ''.'' @ n
      | None \<Rightarrow> ty @ ''.'' @ inst @ ''.'' @ n)"

definition checker_subcircuit_instance ::
  "string \<Rightarrow> string option \<Rightarrow> string \<Rightarrow> string \<Rightarrow> string" where
  "checker_subcircuit_instance ty instances inst base =
     (case instances of
        Some l \<Rightarrow> ty @ ''.'' @ l @ ''.'' @ inst @ ''.'' @ base
      | None \<Rightarrow> ty @ ''.'' @ inst @ ''.'' @ base)"

text \<open>The new name of one node of an element: the translation of a formal node (left
  blank when there is an instance path), the ground node, or a qualified internal name.
  \<^verbatim>\<open>checker_copy_subcircuit_nodes\<close> builds the node list in reverse and reverses it.\<close>

definition copy_node ::
  "definition_t \<Rightarrow> definition_t \<Rightarrow> string option \<Rightarrow> node_t \<Rightarrow> node_t" where
  "copy_node ty inst instances n =
     \<lparr>node =
        (if xlate n \<noteq> None then (if instances = None then xlate n else None)
         else if node n = Some ''gnd'' then node n
         else Some (checker_subcircuit_node (instance (attrs ty)) instances
                      (instance (attrs inst)) (the (node n)))),
      xlate = None, xlatenr = xlatenr n\<rparr>"

definition checker_copy_subcircuit_nodes ::
  "definition_t \<Rightarrow> definition_t \<Rightarrow> definition_t \<Rightarrow> definition_t \<Rightarrow> string option \<Rightarrow>
   definition_t" where
  "checker_copy_subcircuit_nodes ty inst s cp instances =
     map_attrs (\<lambda>a. a\<lparr>nodes := rev (rev (map (copy_node ty inst instances) (nodes (attrs s))))\<rparr>) cp"

text \<open>\<^verbatim>\<open>checker_get_circuit_node (root, n)\<close> follows \<^verbatim>\<open>next\<close> \<open>n - 1\<close> times;
  \<open>None\<close> is a failed assertion or the \<^verbatim>\<open>NULL\<close> that the caller dereferences.\<close>

fun get_circuit_node_loop :: "node_t list \<Rightarrow> nat \<Rightarrow> node_t option" where
  "get_circuit_node_loop [] k = None"
| "get_circuit_node_loop (x # xs) 0 = Some x"
| "get_circuit_node_loop (x # xs) (Suc k) = get_circuit_node_loop xs k"

definition checker_get_circuit_node :: "node_t list \<Rightarrow> int \<Rightarrow> node_t option" where
  "checker_get_circuit_node rt n = get_circuit_node_loop rt (nat (n - 1))"

text \<open>\<^verbatim>\<open>checker_copy_circuit_nodes\<close> for one node of a copy: a blank node is resolved
  through the node of the instance \<open>s\<close> at its formal position.\<close>

definition copy_circuit_node ::
  "definition_t \<Rightarrow> definition_t \<Rightarrow> definition_t \<Rightarrow> string option \<Rightarrow> node_t \<Rightarrow> node_t option" where
  "copy_circuit_node ty inst s instances ncopy =
     (if node ncopy = None then
        (if xlatenr ncopy = 0 then None
         else
           (case checker_get_circuit_node (nodes (attrs s)) (xlatenr ncopy) of
              None \<Rightarrow> None
            | Some n \<Rightarrow>
                Some (ncopy\<lparr>xlatenr := xlatenr n,
                   node :=
                     (if xlate n \<noteq> None then (if instances = None then xlate n else None)
                      else if node n = Some ''gnd'' then node n
                      else Some (checker_subcircuit_node (instance (attrs ty)) instances
                                   (instance (attrs inst)) (the (node n))))\<rparr>)))
      else Some ncopy)"

fun copy_circuit_nodes_loop ::
  "definition_t \<Rightarrow> definition_t \<Rightarrow> definition_t \<Rightarrow> string option \<Rightarrow> node_t list \<Rightarrow>
   node_t list option" where
  "copy_circuit_nodes_loop ty inst s instances [] = Some []"
| "copy_circuit_nodes_loop ty inst s instances (ncopy # ncopies) =
     (case copy_circuit_node ty inst s instances ncopy of
        None \<Rightarrow> None
      | Some n \<Rightarrow>
          map_option (\<lambda>ns. n # ns) (copy_circuit_nodes_loop ty inst s instances ncopies))"

definition checker_copy_circuit_nodes ::
  "definition_t \<Rightarrow> definition_t \<Rightarrow> definition_t \<Rightarrow> definition_t \<Rightarrow> string option \<Rightarrow>
   definition_t option" where
  "checker_copy_circuit_nodes ty inst s cp instances =
     map_option (\<lambda>ns. map_attrs (\<lambda>a. a\<lparr>nodes := ns\<rparr>) cp)
       (copy_circuit_nodes_loop ty inst s instances (nodes (attrs cp)))"

text \<open>Modelled from the spec: \<^verbatim>\<open>strlist::toString (".")\<close> of \<^verbatim>\<open>strlist.h\<close>, which is not
  among the sources, joins the instance names of the path with dots.\<close>

fun strlist_toString :: "string \<Rightarrow> string list \<Rightarrow> string" where
  "strlist_toString sep [] = []"
| "strlist_toString sep [x] = x"
| "strlist_toString sep (x # y # ys) = x @ sep @ strlist_toString sep (y # ys)"

text \<open>\<^verbatim>\<open>checker_subcircuit_instance_list\<close>: \<open>None\<close> for a \<^verbatim>\<open>NULL\<close> or empty list.\<close>

definition checker_subcircuit_instance_list :: "string list option \<Rightarrow> string option" where
  "checker_subcircuit_instance_list instances =
     (case instances of
        None \<Rightarrow> None
      | Some l \<Rightarrow> if length l > 0 then Some (strlist_toString ''.'' l) else None)"

text \<open>The element copy of \<^verbatim>\<open>checker_copy_subcircuits\<close> for a body statement \<open>d\<close> whose
  nodes are already translated.\<close>

definition copy_element ::
  "definition_t \<Rightarrow> definition_t \<Rightarrow> string list option \<Rightarrow> definition_t \<Rightarrow> definition_t" where
  "copy_element ty inst instances d =
     (let cp = checker_copy_subcircuit d;
          l = checker_subcircuit_instance_list instances;
          cp = map_attrs
                 (\<lambda>a. a\<lparr>instance := checker_subcircuit_instance (instance (attrs ty)) l
                                        (instance (attrs inst)) (instance (attrs d)),
                         subcircuit := Some (instance (attrs ty))\<rparr>) cp
      in checker_copy_subcircuit_nodes ty inst d cp l)"

text \<open>\<^verbatim>\<open>checker_copy_circuit_nodes\<close> for every statement of the list \<^verbatim>\<open>copy\<close>.\<close>

fun copy_circuit_nodes_all ::
  "definition_t \<Rightarrow> definition_t \<Rightarrow> definition_t \<Rightarrow> string option \<Rightarrow> definition_t list \<Rightarrow>
   definition_t list option" where
  "copy_circuit_nodes_all ty inst s l [] = Some []"
| "copy_circuit_nodes_all ty inst s l (c # cs) =
     (case checker_copy_circuit_nodes ty inst s c l of
        None \<Rightarrow> None
      | Some c' \<Rightarrow> map_option (\<lambda>cs'. c' # cs') (copy_circuit_nodes_all ty inst s l cs))"

text \<open>\<^verbatim>\<open>checker_copy_subcircuits (type, inst, instances)\<close>: the loop over the body
  \<open>defs\<close> of the template, with the list \<open>rt\<close> built so far (\<^verbatim>\<open>root\<close>, in reverse order)
  and the instance path \<^verbatim>\<open>*instances\<close> (\<open>instance_copy\<close> is the list
  \<^verbatim>\<open>instcopy\<close>, which is put back after a nested instance). The translation written to the nodes of a body
  statement is cleared again at the end of its iteration, so the template is not changed.
  A nested instance without a template makes the recursive call dereference \<^verbatim>\<open>NULL\<close>.
  Nothing bounds the recursion: the result is \<open>None\<close> also when it does not return.\<close>

definition instance_copy :: "string list option \<Rightarrow> string list" where
  "instance_copy instances = (case instances of None \<Rightarrow> [] | Some l \<Rightarrow> l)"

partial_function (option) copy_subcircuits_loop ::
  "definition_t list \<Rightarrow> definition_t \<Rightarrow> definition_t \<Rightarrow> string list option \<Rightarrow>
   definition_t list \<Rightarrow> definition_t list \<Rightarrow> definition_t list option" where
  "copy_subcircuits_loop reg ty inst instances defs rt =
     (case defs of
        [] \<Rightarrow> Some rt
      | d # ds \<Rightarrow>
          (case checker_xlat_subcircuit_nodes ty inst d of
             None \<Rightarrow> None
           | Some d' \<Rightarrow>
               if type (attrs d') = ''Sub'' then
                 (case checker_get_subcircuit reg d' of
                    None \<Rightarrow> None
                  | Some s \<Rightarrow>
                      Option.bind
                        (copy_subcircuits_loop reg s d'
                           (Some (instance_copy instances @ [instance (attrs inst)])) (sub s) [])
                        (\<lambda>cp.
                           if cp \<noteq> [] then
                             (case copy_circuit_nodes_all ty inst d'
                                     (checker_subcircuit_instance_list
                                        (Some (instance_copy instances))) cp of
                                None \<Rightarrow> None
                              | Some cp' \<Rightarrow>
                                  copy_subcircuits_loop reg ty inst
                                    (Some (instance_copy instances)) ds (cp' @ rt))
                           else copy_subcircuits_loop reg ty inst
                                  (Some (instance_copy instances)) ds rt))
               else
                 copy_subcircuits_loop reg ty inst instances ds
                   (copy_element ty inst instances d' # rt)))"

definition checker_copy_subcircuits ::
  "definition_t list \<Rightarrow> definition_t \<Rightarrow> definition_t \<Rightarrow> string list option \<Rightarrow>
   definition_t list option" where
  "checker_copy_subcircuits reg ty inst instances =
     copy_subcircuits_loop reg ty inst instances (sub ty) []"

subsection \<open>Expanding the subcircuits\<close>

text \<open>The loop of \<^verbatim>\<open>checker_expand_subcircuits\<close>: \<open>pre\<close> are the statements of the list
  up to \<^verbatim>\<open>prev\<close>, \<open>defs\<close> the statements from \<^verbatim>\<open>def\<close> on. The copies of a \<^verbatim>\<open>Sub\<close>
  statement are put in front of the list (\<^verbatim>\<open>last->next = root; root = copy\<close>) and the
  loop goes on at the old head of the list (\<^verbatim>\<open>next = root\<close>) with \<^verbatim>\<open>prev = last\<close>.\<close>

partial_function (option) expand_subcircuits_loop ::
  "definition_t list \<Rightarrow> definition_t list \<Rightarrow> definition_t list \<Rightarrow> definition_t list option" where
  "expand_subcircuits_loop reg pre defs =
     (case defs of
        [] \<Rightarrow> Some pre
      | d # ds \<Rightarrow>
          if type (attrs d) = ''Sub'' then
            (case checker_get_subcircuit reg d of
               None \<Rightarrow> None
             | Some s \<Rightarrow>
                 (case checker_copy_subcircuits reg s d None of
                    None \<Rightarrow> None
                  | Some cp \<Rightarrow>
                      if cp \<noteq> [] then expand_subcircuits_loop reg cp (pre @ ds)
                      else expand_subcircuits_loop reg pre ds))
          else expand_subcircuits_loop reg (pre @ [d]) ds)"

definition checker_expand_subcircuits ::
  "definition_t list \<Rightarrow> definition_t list \<Rightarrow> definition_t list option" where
  "checker_expand_subcircuits reg rt = expand_subcircuits_loop reg [] rt"


declare checker_count_nonlinearities.simps [code]
declare copy_subcircuits_loop.simps [code]
declare expand_subcircuits_loop.simps [code]

text \<open>The two-level scenario: the template \<open>Inner\<close> with the formal ports \<open>p\<close> and
  \<open>g\<close> and one element between the port \<open>p\<close>, the internal node \<open>n1\<close>, the ground node
  and the port \<open>g\<close>; the template \<open>Outer\<close> with the formal port \<open>a\<close>, which contains the
  instance \<open>innerInst\<close> of \<open>Inner\<close> wired to its own port \<open>a\<close> and to ground, and an
  element between \<open>a\<close> and ground; and the netlist with the instance \<open>outer\<close> of
  \<open>Outer\<close> on the node \<open>ext\<close>.\<close>

definition two_level_reg ::
  "string \<Rightarrow> string \<Rightarrow> string \<Rightarrow> string \<Rightarrow> string \<Rightarrow> definition_t list" where
  "two_level_reg innerInst p g n1 a =
     [template ''Outer'' [a]
        [sub_instance innerInst ''Inner'' [a, ''gnd''],
         parsed_definition ''R'' ''R2'' 0 [a, ''gnd''] [] []],
      template ''Inner'' [p, g]
        [parsed_definition ''R'' ''R1'' 0 [p, n1, ''gnd'', g] [] []]]"

definition two_level_netlist :: "string \<Rightarrow> string \<Rightarrow> definition_t list" where
  "two_level_netlist outer ext = [sub_instance outer ''Outer'' [ext]]"

text \<open>The instance name and the node names of a statement.\<close>

definition names_of :: "definition_t \<Rightarrow> string \<times> string option list" where
  "names_of d = (instance (attrs d), map node (nodes (attrs d)))"

text \<open>What one body statement \<open>d\<close> of the template \<open>ty\<close> contributes to the copy of the
  template for the instance \<open>inst\<close> under the instance path \<open>path\<close>: the element copy, or
  for a nested instance the copy of its template with the blank nodes assigned.\<close>

definition copy_piece ::
  "definition_t list \<Rightarrow> definition_t \<Rightarrow> definition_t \<Rightarrow> string list \<Rightarrow> definition_t \<Rightarrow>
   definition_t list option" where
  "copy_piece reg ty inst path d =
     (case checker_xlat_subcircuit_nodes ty inst d of
        None \<Rightarrow> None
      | Some d' \<Rightarrow>
          if type (attrs d') = ''Sub'' then
            (case checker_get_subcircuit reg d' of
               None \<Rightarrow> None
             | Some s \<Rightarrow>
                 Option.bind
                   (checker_copy_subcircuits reg s d' (Some (path @ [instance (attrs inst)])))
                   (copy_circuit_nodes_all ty inst d'
                      (checker_subcircuit_instance_list (Some path))))
          else Some [copy_element ty inst (Some path) d'])"

text \<open>The copy of the template of a \<^verbatim>\<open>Sub\<close> statement of the netlist.\<close>

definition expand_piece :: "definition_t list \<Rightarrow> definition_t \<Rightarrow> definition_t list option" where
  "expand_piece reg d =
     (case checker_get_subcircuit reg d of
        None \<Rightarrow> None
      | Some s \<Rightarrow> checker_copy_subcircuits reg s d None)"

definition is_sub :: "definition_t \<Rightarrow> bool" where
  "is_sub d = (type (attrs d) = ''Sub'')"
text \<open>A template with two resistors in series, and a netlist with a resistor followed by
  an instance of the template.\<close>

definition example_order_reg :: "definition_t list" where
  "example_order_reg =
     [template ''T'' [''p'']
        [parsed_definition ''R'' ''R1'' 0 [''p'', ''n''] [] [],
         parsed_definition ''R'' ''R2'' 0 [''n'', ''gnd''] [] []]]"

definition example_order_netlist :: "definition_t list" where
  "example_order_netlist =
     [parsed_definition ''R'' ''R0'' 0 [''ext'', ''gnd''] [] [],
      sub_instance ''X1'' ''T'' [''ext'']]"

subsection \<open>Microstrip components and node sets\<close>

text \<open>The loops over the statements of a list that is written during the loop run over the
  indices of the list: statement \<open>i\<close> is read from the current list.\<close>








subsection \<open>Property values\<close>

text \<open>\<^verbatim>\<open>checker_value_in_prop_range\<close>; \<^verbatim>\<open>modf (x, &integral) != 0\<close> holds when \<open>x\<close> has
  a fractional part.\<close>

definition checker_value_in_prop_range :: "pair_t \<Rightarrow> property_t \<Rightarrow> range_error list" where
  "checker_value_in_prop_range pr prop =
     (if PROP_IS_VAL prop then
        (if \<not> PROP_IS_LST prop \<and> pnext pr \<noteq> [] then [NoListsPossible] else []) @
        (case prange prop of
           Some (l, h) \<Rightarrow>
             concat (map (\<lambda>v. if value v < l \<or> value v > h then [OutOfRange] else [])
                       (pvalue pr # pnext pr))
         | None \<Rightarrow> []) @
        (if PROP_IS_INT prop \<and> frac (value (pvalue pr)) \<noteq> 0 then [NotInteger] else [])
      else
        (if ident (pvalue pr) = None then [NotIdentifier] else []))"

definition checker_value_in_range :: "define_t \<Rightarrow> pair_t \<Rightarrow> int" where
  "checker_value_in_range available pr =
     (let errors =
            concat (map (\<lambda>prop. if pkey prop = key pr
                                then checker_value_in_prop_range pr prop else [])
                      (av_required available)) @
            concat (map (\<lambda>prop. if pkey prop = key pr
                                then checker_value_in_prop_range pr prop else [])
                      (av_optional available))
      in if errors \<noteq> [] then 0 else 1)"

subsection \<open>The list of subcircuit templates\<close>


subsection \<open>The checker of one statement list\<close>

text \<open>The body of the loop over the properties of statement \<open>i\<close> in
  \<^verbatim>\<open>netlist_checker_intern\<close>, for property \<open>j\<close>.\<close>

definition intern_pair ::
  "define_t \<Rightarrow> nat \<Rightarrow> nat \<Rightarrow> checker_error list \<times> definition_t list \<Rightarrow>
   checker_error list \<times> definition_t list" where
  "intern_pair available i j acc =
     (case acc of (errors, rt) \<Rightarrow>
        (let d = rt ! i;
             pr = pairs (attrs d) ! j;
             about = [type (attrs d), instance (attrs d), key pr];
             errors = errors @
               (if \<not> checker_is_property available (key pr)
                then [Err ExtraneousProperty about] else []);
             (r, v) = checker_evaluate_scale (pvalue pr);
             rt = update_value (\<lambda>x. v) (i, j) rt;
             errors = errors @ (if r = 0 then [Err ScaleError about] else []);
             errors = errors @
               (if checker_value_in_range available (pairs (attrs (rt ! i)) ! j) = 0
                then [Err ValueNotInRange about] else []);
             (r, rt) = checker_resolve_variable rt i j;
             errors = errors @ (if r = 0 then [Err UnresolvedIdentifier about] else [])
         in (errors, rt)))"

text \<open>The annotations that the checker writes to a statement with a catalog entry.\<close>

definition annotate :: "define_t \<Rightarrow> nat \<Rightarrow> definition_t \<Rightarrow> definition_t" where
  "annotate available n d =
     map_attrs
       (\<lambda>a. a\<lparr>nodeset := (if type a = ''NodeSet'' then 1 else 0),
               nonlinear := av_nonlinear available,
               substrate := av_substrate available,
               define := Some available,
               ncount := int n\<rparr>) d"

text \<open>The body of the loop of \<^verbatim>\<open>netlist_checker_intern\<close> for statement \<open>i\<close>, up to
  the check of the number of definitions: the checks against the catalog entry of the
  statement. \<open>cat\<close> is the catalog \<^verbatim>\<open>qucs_definition_available\<close> of \<^verbatim>\<open>qucsdefs.h\<close>,
  which is not among the sources.\<close>

definition intern_catalog ::
  "define_t list \<Rightarrow> nat \<Rightarrow> checker_error list \<times> definition_t list \<Rightarrow>
   checker_error list \<times> definition_t list" where
  "intern_catalog cat i acc =
     (case acc of (errors, rt) \<Rightarrow>
        (let d = rt ! i in
         (case checker_find_definition cat (type (attrs d)) (action (attrs d)) of
            None \<Rightarrow> (errors @ [Err UnknownType [type (attrs d)]], rt)
          | Some available \<Rightarrow>
              (let n = checker_count_nodes d;
                   rt = rt[i := annotate available n d];
                   errors = errors @
                     (if av_nodes available = PROP_NODES then
                        (if n < 1
                         then [Err NodeCountMismatch [type (attrs d), instance (attrs d)]]
                         else [])
                      else if av_nodes available \<noteq> int n
                      then [Err NodeCountMismatch [type (attrs d), instance (attrs d)]]
                      else []);
                   errors = errors @
                     concat (map (\<lambda>p. if checker_find_property (pkey p) (pairs (attrs d)) \<noteq> 1
                                       then [Err MissingOrDuplicateRequired
                                               [type (attrs d), instance (attrs d), pkey p]]
                                       else [])
                               (av_required available));
                   errors = errors @
                     concat (map (\<lambda>p. if checker_find_property (pkey p) (pairs (attrs d)) \<ge> 2
                                       then [Err DuplicateOptional
                                               [type (attrs d), instance (attrs d), pkey p]]
                                       else [])
                               (av_optional available))
               in fold (intern_pair available i) [0..<length (pairs (attrs d))]
                    (errors, rt)))))"

text \<open>The whole body of the loop for statement \<open>i\<close>: the checks against the catalog, then
  the check of the number of definitions with the type and instance name of the
  statement. The error is counted when the count is not one and the statement is not
  marked as a duplicate.\<close>

definition intern_def ::
  "define_t list \<Rightarrow> nat \<Rightarrow> checker_error list \<times> definition_t list \<Rightarrow>
   checker_error list \<times> definition_t list" where
  "intern_def cat i acc =
     (case intern_catalog cat i acc of (errors, rt) \<Rightarrow>
        (let d = rt ! i in
         (case checker_count_definition rt (type (attrs d)) (instance (attrs d)) of
            (n, rt) \<Rightarrow>
              (errors @
               (if n \<noteq> 1 \<and> duplicate (attrs (rt ! i)) = 0
                then [Err DuplicateDefinition [type (attrs d), instance (attrs d)]] else []),
               rt))))"

text \<open>The loop over the statements in \<^verbatim>\<open>netlist_checker_intern\<close>.\<close>

definition intern_loop ::
  "define_t list \<Rightarrow> definition_t list \<Rightarrow> checker_error list \<times> definition_t list" where
  "intern_loop cat rt = fold (intern_def cat) [0..<length rt] ([], rt)"


subsection \<open>The global checker\<close>





text \<open>Statement \<open>d\<close> has the given type and instance name.\<close>

definition matches :: "string \<Rightarrow> string \<Rightarrow> definition_t \<Rightarrow> bool" where
  "matches t i d = (type (attrs d) = t \<and> instance (attrs d) = i)"

text \<open>Statement \<open>k\<close> of the list is not the first one with its type and instance name.\<close>

definition repeated :: "definition_t list \<Rightarrow> nat \<Rightarrow> bool" where
  "repeated rt k =
     (\<exists>j < k. matches (type (attrs (rt ! k))) (instance (attrs (rt ! k))) (rt ! j))"

text \<open>The type, the instance name and the duplicate mark of a statement.\<close>

definition id_mark :: "definition_t \<Rightarrow> string \<times> string \<times> int" where
  "id_mark d = (type (attrs d), instance (attrs d), duplicate (attrs d))"

text \<open>The error of the check of the number of definitions.\<close>

definition is_duplicate_error :: "checker_error \<Rightarrow> bool" where
  "is_duplicate_error e = (kind e = DuplicateDefinition)"


text \<open>Two statements \<^verbatim>\<open>R:R1\<close> with a statement \<^verbatim>\<open>C:C1\<close> between them and a third
  \<^verbatim>\<open>R:R1\<close> at the end.\<close>

definition example_duplicates :: "definition_t list" where
  "example_duplicates =
     [parsed_definition ''R'' ''R1'' 0 [''a'', ''b''] [] [],
      parsed_definition ''C'' ''C1'' 0 [''a'', ''b''] [] [],
      parsed_definition ''R'' ''R1'' 0 [''b'', ''c''] [] [],
      parsed_definition ''R'' ''R1'' 0 [''c'', ''d''] [] []]"


subsection \<open>Conditions under which the expansion returns\<close>





subsection \<open>What the checks leave unchanged\<close>

text \<open>What the subcircuit checks and the expansion read of a statement to find its
  template and to translate its nodes: the type, the instance name, the nodes, the key and
  the identifier of every property, and the same of the statements of its body. The checks
  write annotations and evaluate values, and leave this unchanged.\<close>

datatype shape_t =
  Shape string string "node_t list" "(string \<times> string option) list" "shape_t list"

fun shape :: "definition_t \<Rightarrow> shape_t" where
  "shape (Definition a ds) =
     Shape (type a) (instance a) (nodes a) (map (\<lambda>p. (key p, ident (pvalue p))) (pairs a))
       (map shape ds)"

text \<open>A template \<open>A\<close> whose body has an instance of the type \<open>Missing\<close>, which names no
  template, and then an instance of \<open>A\<close> itself; and a template \<open>L\<close> whose body has only
  the instance of \<open>Missing\<close>.\<close>

definition example_undefined :: "definition_t list" where
  "example_undefined =
     [template ''A'' [''p'']
        [sub_instance ''X1'' ''Missing'' [''p''], sub_instance ''X2'' ''A'' [''p'']],
      template ''L'' [''p''] [sub_instance ''X3'' ''Missing'' [''p'']]]"



text \<open>The nodes of a statement and of the statements of its body, to any depth, are as the
  parser leaves them: they have a name and no translation.\<close>

fun nodes_parsed :: "shape_t \<Rightarrow> bool" where
  "nodes_parsed (Shape t i ns ps ss) =
     ((\<forall>n \<in> set ns. node n \<noteq> None \<and> xlate n = None) \<and> (\<forall>s \<in> set ss. nodes_parsed s))"

definition parsed_nodes :: "definition_t \<Rightarrow> bool" where
  "parsed_nodes d = nodes_parsed (shape d)"










section \<open>Properties\<close>

subsection \<open>Unit-scale folding\<close>

lemma scale_switch_dBm: "scale_switch x ''dBm'' = (10 powr (x / 10), 1 / 10 ^ 3, [])"
  by (simp add: scale_switch_def)

lemma scale_switch_k: "scale_switch x ''k'' = (x, 10 ^ 3, [])"
  by (simp add: scale_switch_def)

text \<open>
  C5, as stated, fails: for the value \<open>3dBm\<close> the \<^verbatim>\<open>m\<close> after \<^verbatim>\<open>dB\<close> is consumed as
  part of the scale (factor \<open>1e-3\<close>), so no unit is left and the number is not
  \<open>10 powr (3/10)\<close>.
\<close>

theorem evaluate_scale_dBm_counterexample:
  "unit (snd (checker_evaluate_scale (parsed_number 3 (Some ''dBm'')))) \<noteq> Some ''m'' \<and>
   value (snd (checker_evaluate_scale (parsed_number 3 (Some ''dBm'')))) \<noteq> 10 powr (3 / 10)"
  by (simp add: checker_evaluate_scale_def parsed_number_def scale_switch_dBm)

text \<open>
  C5 (amended): unit-scale evaluation folds the scale prefix into the magnitude. The value
  \<open>1k\<close> folds to \<open>1000\<close> with no unit left; the value \<open>3dBm\<close> folds to
  \<open>10 powr (3/10) * 1e-3\<close> with no unit left (the \<^verbatim>\<open>m\<close> is part of the scale); the
  scale is cleared, and folding is idempotent: evaluating an already folded value leaves
  it unchanged.
\<close>

theorem evaluate_scale_folds:
  "checker_evaluate_scale (parsed_number 1 (Some ''k'')) = (1, parsed_number 1000 None) \<and>
   checker_evaluate_scale (parsed_number 3 (Some ''dBm'')) =
     (1, parsed_number (10 powr (3 / 10) * (1 / 10 ^ 3)) None) \<and>
   scale (snd (checker_evaluate_scale v)) = None \<and>
   checker_evaluate_scale (snd (checker_evaluate_scale v)) = (1, snd (checker_evaluate_scale v))"
proof -
  have k: "checker_evaluate_scale (parsed_number 1 (Some ''k'')) = (1, parsed_number 1000 None)"
    by (simp add: checker_evaluate_scale_def parsed_number_def scale_switch_k)
  have d: "checker_evaluate_scale (parsed_number 3 (Some ''dBm'')) =
      (1, parsed_number (10 powr (3 / 10) * (1 / 10 ^ 3)) None)"
    by (simp add: checker_evaluate_scale_def parsed_number_def scale_switch_dBm)
  have s: "scale (snd (checker_evaluate_scale v)) = None"
    by (simp add: checker_evaluate_scale_def split: option.split prod.split)
  have i: "checker_evaluate_scale (snd (checker_evaluate_scale v)) =
      (1, snd (checker_evaluate_scale v))"
    using s by (simp add: checker_evaluate_scale_def [of "snd (checker_evaluate_scale v)"])
  from k d s i show ?thesis by blast
qed

subsection \<open>Resolving identifiers\<close>

lemma attrs_map_attrs [simp]: "attrs (map_attrs f d) = f (attrs d)"
  by (simp add: map_attrs_def)

lemma sub_map_attrs [simp]: "sub (map_attrs f d) = sub d"
  by (simp add: map_attrs_def)

lemma map_attrs_map_attrs: "map_attrs f (map_attrs g d) = map_attrs (\<lambda>a. f (g a)) d"
  by (simp add: map_attrs_def)

lemma find_variable_pairs_untag:
  "find_variable_pairs (map untag_pair ps) k idt = find_variable_pairs ps k idt"
  by (induction ps) (auto simp add: untag_pair_def untag_value_def)

lemma find_variable_untag:
  "checker_find_variable (map untag_definition rt) t k idt = checker_find_variable rt t k idt"
  by (induction rt) (auto simp add: untag_definition_def find_variable_pairs_untag split: option.split)

lemma find_reference_pairs_untag:
  "find_reference_pairs (map untag_pair ps) k = map_option untag_value (find_reference_pairs ps k)"
  by (induction ps) (auto simp add: untag_pair_def untag_value_def)

lemma find_reference_untag:
  "checker_find_reference (untag_definition d) k = map_option untag_value (checker_find_reference d k)"
  by (simp add: checker_find_reference_def untag_definition_def find_reference_pairs_untag)

lemma type_untag_definition [simp]: "type (attrs (untag_definition d)) = type (attrs d)"
  by (simp add: untag_definition_def)

lemma ident_untag_value [simp]: "ident (untag_value v) = ident v"
  by (simp add: untag_value_def)

lemma find_substrate_loop_untag:
  "find_substrate_loop ss (untag_definition d) idt =
     map_option untag_value (find_substrate_loop ss d idt)"
proof (induction ss)
  case Nil
  then show ?case by simp
next
  case (Cons s ss)
  then show ?case
    by (cases "checker_find_reference d ''Subst''") (simp_all add: find_reference_untag)
qed

lemma find_substrate_untag:
  "(checker_find_substrate (untag_definition d) idt = None) = (checker_find_substrate d idt = None)"
  by (simp add: checker_find_substrate_def find_substrate_loop_untag)

lemma validate_special_loop_untag:
  "validate_special_loop sps (map untag_definition rt) idt n = validate_special_loop sps rt idt n"
  by (induction sps rt idt n rule: validate_special_loop.induct)
     (simp_all add: find_variable_untag)

lemma untag_update_pair_value:
  "\<forall>v. untag_value (f v) = untag_value v \<Longrightarrow>
   map untag_pair (update_pair_value f j ps) = map untag_pair ps"
proof (induction ps arbitrary: j)
  case Nil
  then show ?case by (simp add: update_pair_value_def)
next
  case (Cons p ps)
  from Cons.IH [OF Cons.prems] Cons.prems show ?case
    by (cases j) (simp_all add: update_pair_value_def untag_pair_def)
qed

lemma untag_update_value:
  assumes "\<forall>v. untag_value (f v) = untag_value v"
  shows "map untag_definition (update_value f pos rt) = map untag_definition rt"
proof -
  obtain i j where pos: "pos = (i, j)" by (cases pos)
  have one: "untag_definition
      (map_attrs (\<lambda>a. a\<lparr>pairs := update_pair_value f j (pairs a)\<rparr>) d) = untag_definition d" for d
    by (simp add: untag_definition_def map_attrs_map_attrs untag_update_pair_value [OF assms])
  show ?thesis
  proof (cases "i < length rt")
    case True
    then show ?thesis
      by (simp add: pos update_value_def map_update one list_update_same_conv)
  next
    case False
    then have "length rt \<le> i" by simp
    then have "rt[i := x] = rt" for x by (rule list_update_beyond)
    then show ?thesis by (simp add: pos update_value_def)
  qed
qed

lemma same_untag_find_variable:
  "map untag_definition rt' = map untag_definition rt \<Longrightarrow>
   checker_find_variable rt' t k idt = checker_find_variable rt t k idt"
  by (metis find_variable_untag)

lemma same_untag_validate_special:
  "map untag_definition rt' = map untag_definition rt \<Longrightarrow>
   checker_validate_special rt' d' idt = checker_validate_special rt d idt"
  unfolding checker_validate_special_def by (metis validate_special_loop_untag)

lemma same_untag_find_substrate:
  assumes "map untag_definition rt' = map untag_definition rt" "i < length rt"
  shows "(checker_find_substrate (rt' ! i) idt = None) = (checker_find_substrate (rt ! i) idt = None)"
proof -
  from assms have len: "length rt' = length rt" by (metis length_map)
  with assms have "untag_definition (rt' ! i) = untag_definition (rt ! i)"
    by (metis nth_map)
  then show ?thesis by (metis find_substrate_untag)
qed

lemma untag_var [simp]: "untag_value (v\<lparr>var := x\<rparr>) = untag_value v"
  by (simp add: untag_value_def)

lemma untag_subst [simp]: "untag_value (v\<lparr>subst := x\<rparr>) = untag_value v"
  by (simp add: untag_value_def)

lemma resolve_variable_found_untag:
  "map untag_definition (snd (resolve_variable_found rt i j idt)) = map untag_definition rt"
  by (simp add: resolve_variable_found_def Let_def untag_update_value split: option.split)

lemma resolve_variable_found_count:
  assumes "i < length rt"
  shows "fst (resolve_variable_found rt i j idt) =
     (if checker_find_variable rt ''SW'' ''Param'' (Some idt) \<noteq> None then 1 else 0) +
     (if checker_find_variable rt ''SW'' ''Sim'' (Some idt) \<noteq> None then 1 else 0) +
     (if checker_find_substrate (rt ! i) (Some idt) \<noteq> None then 1 else 0) +
     (if checker_find_variable rt ''Sub'' ''Type'' (Some idt) \<noteq> None then 1 else 0) +
     (if checker_validate_special rt (rt ! i) idt \<noteq> 0 then 1 else 0) +
     (if checker_find_variable rt ''SPfile'' ''File'' (Some idt) \<noteq> None then 1 else 0)"
proof -
  define rt1 where "rt1 =
    (case checker_find_variable rt ''SW'' ''Param'' (Some idt) of
       Some pos \<Rightarrow> update_value (\<lambda>v. v\<lparr>var := TAG_DOUBLE\<rparr>) (i, j)
                    (update_value (\<lambda>v. v\<lparr>var := TAG_DOUBLE\<rparr>) pos rt)
     | None \<Rightarrow> rt)"
  define rt2 where "rt2 =
    (if checker_find_substrate (rt1 ! i) (Some idt) \<noteq> None
     then update_value (\<lambda>v. v\<lparr>subst := 1\<rparr>) (i, j) rt1 else rt1)"
  have u1: "map untag_definition rt1 = map untag_definition rt"
    by (simp add: rt1_def untag_update_value split: option.split)
  have u2: "map untag_definition rt2 = map untag_definition rt"
    by (simp add: rt2_def untag_update_value u1)
  have len1: "i < length rt1" using u1 assms by (metis length_map)
  have s1: "(checker_find_substrate (rt1 ! i) (Some idt) = None) =
            (checker_find_substrate (rt ! i) (Some idt) = None)"
    by (rule same_untag_find_substrate [OF u1 assms])
  have v1: "checker_find_variable rt1 t k x = checker_find_variable rt t k x" for t k x
    by (rule same_untag_find_variable [OF u1])
  have v2: "checker_find_variable rt2 t k x = checker_find_variable rt t k x" for t k x
    by (rule same_untag_find_variable [OF u2])
  have sp: "checker_validate_special rt2 (rt2 ! i) idt = checker_validate_special rt (rt ! i) idt"
    by (rule same_untag_validate_special [OF u2])
  have "fst (resolve_variable_found rt i j idt) =
     (if checker_find_variable rt ''SW'' ''Param'' (Some idt) \<noteq> None then 1 else 0) +
     (if checker_find_variable rt1 ''SW'' ''Sim'' (Some idt) \<noteq> None then 1 else 0) +
     (if checker_find_substrate (rt1 ! i) (Some idt) \<noteq> None then 1 else 0) +
     (if checker_find_variable rt2 ''Sub'' ''Type'' (Some idt) \<noteq> None then 1 else 0) +
     (if checker_validate_special rt2 (rt2 ! i) idt \<noteq> 0 then 1 else 0) +
     (if checker_find_variable rt2 ''SPfile'' ''File'' (Some idt) \<noteq> None then 1 else 0)"
    unfolding resolve_variable_found_def rt1_def rt2_def Let_def
    by (simp split: option.split)
  then show ?thesis by (simp only: v1 v2 s1 sp)
qed


lemma indicator_sum_zero:
  "((if a then 1 else 0) + (if b then 1 else 0) + (if c then 1 else 0) +
    (if d then 1 else 0) + (if e then 1 else 0) + (if f then 1 else (0::nat)) = 0) =
   (\<not> a \<and> \<not> b \<and> \<not> c \<and> \<not> d \<and> \<not> e \<and> \<not> f)"
  by simp

text \<open>
  C6: for an identifier-valued property value (the first value of property \<open>j\<close> of
  statement \<open>i\<close>, with identifier \<open>idt\<close>) the resolver tries all six domains in the
  order Param, Sim, substrate, subcircuit Type, special value, file reference, and
  \<open>found\<close> counts every domain that matches. It returns zero (and the caller counts
  an unresolved-identifier error) if and only if no domain matches. The statement list it
  leaves has the same statements up to the tags \<open>var\<close> and \<open>subst\<close>.
\<close>

theorem resolve_variable_domains:
  assumes "i < length rt" and "ident (pvalue (pairs (attrs (rt ! i)) ! j)) = Some idt"
  shows "fst (resolve_variable_found rt i j idt) =
     (if checker_find_variable rt ''SW'' ''Param'' (Some idt) \<noteq> None then 1 else 0) +
     (if checker_find_variable rt ''SW'' ''Sim'' (Some idt) \<noteq> None then 1 else 0) +
     (if checker_find_substrate (rt ! i) (Some idt) \<noteq> None then 1 else 0) +
     (if checker_find_variable rt ''Sub'' ''Type'' (Some idt) \<noteq> None then 1 else 0) +
     (if checker_validate_special rt (rt ! i) idt \<noteq> 0 then 1 else 0) +
     (if checker_find_variable rt ''SPfile'' ''File'' (Some idt) \<noteq> None then 1 else 0) \<and>
   (fst (checker_resolve_variable rt i j) = 0) =
     (checker_find_variable rt ''SW'' ''Param'' (Some idt) = None \<and>
      checker_find_variable rt ''SW'' ''Sim'' (Some idt) = None \<and>
      checker_find_substrate (rt ! i) (Some idt) = None \<and>
      checker_find_variable rt ''Sub'' ''Type'' (Some idt) = None \<and>
      checker_validate_special rt (rt ! i) idt = 0 \<and>
      checker_find_variable rt ''SPfile'' ''File'' (Some idt) = None) \<and>
   length (snd (checker_resolve_variable rt i j)) = length rt \<and>
   map untag_definition (snd (checker_resolve_variable rt i j)) = map untag_definition rt"
proof -
  note cnt = resolve_variable_found_count [OF assms(1), of j idt]
  have ret: "fst (checker_resolve_variable rt i j) =
      (if fst (resolve_variable_found rt i j idt) = 0 then 0 else 1)"
    by (simp add: checker_resolve_variable_def assms(2) split: prod.split)
  have res: "snd (checker_resolve_variable rt i j) = snd (resolve_variable_found rt i j idt)"
    by (simp add: checker_resolve_variable_def assms(2) split: prod.split)
  have un: "map untag_definition (snd (checker_resolve_variable rt i j)) = map untag_definition rt"
    by (simp add: res resolve_variable_found_untag)
  then have len: "length (snd (checker_resolve_variable rt i j)) = length rt"
    by (metis length_map)
  have zero: "(fst (checker_resolve_variable rt i j) = 0) =
     (checker_find_variable rt ''SW'' ''Param'' (Some idt) = None \<and>
      checker_find_variable rt ''SW'' ''Sim'' (Some idt) = None \<and>
      checker_find_substrate (rt ! i) (Some idt) = None \<and>
      checker_find_variable rt ''Sub'' ''Type'' (Some idt) = None \<and>
      checker_validate_special rt (rt ! i) idt = 0 \<and>
      checker_find_variable rt ''SPfile'' ''File'' (Some idt) = None)"
  proof -
    have "(fst (checker_resolve_variable rt i j) = 0) =
        (fst (resolve_variable_found rt i j idt) = 0)"
      by (simp add: ret)
    also have "\<dots> =
       (\<not> checker_find_variable rt ''SW'' ''Param'' (Some idt) \<noteq> None \<and>
        \<not> checker_find_variable rt ''SW'' ''Sim'' (Some idt) \<noteq> None \<and>
        \<not> checker_find_substrate (rt ! i) (Some idt) \<noteq> None \<and>
        \<not> checker_find_variable rt ''Sub'' ''Type'' (Some idt) \<noteq> None \<and>
        \<not> checker_validate_special rt (rt ! i) idt \<noteq> 0 \<and>
        \<not> checker_find_variable rt ''SPfile'' ''File'' (Some idt) \<noteq> None)"
      unfolding cnt by (rule indicator_sum_zero)
    finally show ?thesis by (simp only: not_not)
  qed
  from cnt zero len un show ?thesis by blast
qed

lemma example_sweep_param:
  "checker_find_variable example_sweep ''SW'' ''Param'' (Some ''Rval'') = Some (1, 0)"
  by (simp add: example_sweep_def parsed_definition_def parsed_ident_def)

theorem resolve_variable_domains_witness:
  "fst (checker_resolve_variable example_sweep 0 0) = 1 \<and>
   map untag_definition (snd (checker_resolve_variable example_sweep 0 0)) =
     map untag_definition example_sweep"
proof -
  have i: "0 < length example_sweep"
    by (simp add: example_sweep_def)
  have v: "ident (pvalue (pairs (attrs (example_sweep ! 0)) ! 0)) = Some ''Rval''"
    by (simp add: example_sweep_def parsed_definition_def parsed_ident_def)
  note t = resolve_variable_domains [OF i v]
  have nz: "fst (checker_resolve_variable example_sweep 0 0) \<noteq> 0"
    using t [THEN conjunct2, THEN conjunct1] example_sweep_param by simp
  have "fst (checker_resolve_variable example_sweep 0 0) = 0 \<or>
      fst (checker_resolve_variable example_sweep 0 0) = 1"
    by (simp add: checker_resolve_variable_def split: option.split prod.split)
  with nz have one: "fst (checker_resolve_variable example_sweep 0 0) = 1"
    by blast
  from one t [THEN conjunct2, THEN conjunct2, THEN conjunct2] show ?thesis
    by (rule conjI)
qed

subsection \<open>The sweep-property check\<close>

lemma validate_lists_def_None:
  "(validate_lists_def d = None) =
   (is_sweep_action d \<and> checker_find_reference d ''Type'' = None)"
  by (auto simp add: validate_lists_def_def is_sweep_action_def Let_def
           split: option.split prod.split)

lemma validate_lists_None:
  "(checker_validate_lists rt = None) =
   (\<exists>d \<in> set rt. is_sweep_action d \<and> checker_find_reference d ''Type'' = None)"
proof (induction rt)
  case Nil
  show ?case by simp
next
  case (Cons d ds)
  show ?case
  proof (cases "validate_lists_def d")
    case None
    then show ?thesis using validate_lists_def_None [of d] by simp
  next
    case (Some r)
    then have "\<not> (is_sweep_action d \<and> checker_find_reference d ''Type'' = None)"
      using validate_lists_def_None [of d] by simp
    with Some Cons.IH show ?thesis
      by (cases r; cases "checker_validate_lists ds") auto
  qed
qed

text \<open>
  C9: the sweep-property check reads the identifier of the \<^verbatim>\<open>Type\<close> reference of every
  SW, AC or SP action without a presence check. It returns (is not \<open>None\<close>, the
  dereference of \<^verbatim>\<open>NULL\<close>) exactly when every SW, AC or SP action of the list has an
  identifier-valued \<^verbatim>\<open>Type\<close> property.
\<close>

theorem validate_lists_total_iff:
  "(checker_validate_lists rt \<noteq> None) =
   (\<forall>d \<in> set rt. is_sweep_action d \<longrightarrow> checker_find_reference d ''Type'' \<noteq> None)"
  by (simp add: validate_lists_None)

theorem validate_lists_total_iff_witness:
  "checker_validate_lists [example_resistor, example_ac] \<noteq> None \<and>
   checker_validate_lists [example_resistor, example_ac_untyped] = None"
proof -
  have a: "is_sweep_action example_ac" "checker_find_reference example_ac ''Type'' \<noteq> None"
    by (simp_all add: is_sweep_action_def example_ac_def parsed_definition_def
          checker_find_reference_def parsed_ident_def)
  have b: "is_sweep_action example_ac_untyped"
     "checker_find_reference example_ac_untyped ''Type'' = None"
    by (simp_all add: is_sweep_action_def example_ac_untyped_def parsed_definition_def
          checker_find_reference_def parsed_number_def)
  have r: "\<not> is_sweep_action example_resistor"
    by (simp add: is_sweep_action_def example_resistor_def parsed_definition_def)
  have "\<forall>d \<in> set [example_resistor, example_ac].
      is_sweep_action d \<longrightarrow> checker_find_reference d ''Type'' \<noteq> None"
    using a r by simp
  with validate_lists_total_iff [of "[example_resistor, example_ac]"]
  have 1: "checker_validate_lists [example_resistor, example_ac] \<noteq> None"
    by blast
  have "\<not> (\<forall>d \<in> set [example_resistor, example_ac_untyped].
      is_sweep_action d \<longrightarrow> checker_find_reference d ''Type'' \<noteq> None)"
    using b by simp
  with validate_lists_total_iff [of "[example_resistor, example_ac_untyped]"]
  have 2: "checker_validate_lists [example_resistor, example_ac_untyped] = None"
    by blast
  from 1 2 show ?thesis by (rule conjI)
qed

subsection \<open>The action check on a netlist without actions\<close>






subsection \<open>Cyclic subcircuit definitions\<close>

lemma hits_path_reach:
  "(instantiates reg)\<^sup>*\<^sup>* A B \<Longrightarrow> B \<in> D \<Longrightarrow> hits_path reg D A"
proof (induction arbitrary: D rule: converse_rtranclp_induct)
  case base
  then show ?case by (rule on_path)
next
  case (step A A')
  from step.prems have "B \<in> insert A D" by simp
  then have "hits_path reg (insert A D) A'" by (rule step.IH)
  with step.hyps(1) show ?case by (rule descend)
qed

lemma hits_path_cycle:
  assumes "(instantiates reg)\<^sup>+\<^sup>+ B B"
  shows "hits_path reg D B"
proof -
  from assms obtain C where c: "instantiates reg B C" "(instantiates reg)\<^sup>*\<^sup>* C B"
    by (auto dest: tranclpD)
  from c(2) have "hits_path reg (insert B D) C"
    by (rule hits_path_reach) simp
  with c(1) show ?thesis by (rule descend)
qed

lemma hits_path_prefix:
  "(instantiates reg)\<^sup>*\<^sup>* A B \<Longrightarrow> (\<And>D. hits_path reg D B) \<Longrightarrow> hits_path reg D A"
proof (induction arbitrary: D rule: converse_rtranclp_induct)
  case base
  then show ?case by simp
next
  case (step A A')
  have "hits_path reg (insert A D) A'"
    by (rule step.IH) (rule step.prems)
  with step.hyps(1) show ?case by (rule descend)
qed

lemma reaches_cycle_hits_path:
  assumes "reaches_cycle reg A"
  shows "hits_path reg D A"
proof -
  from assms obtain B where b: "(instantiates reg)\<^sup>*\<^sup>* A B" "(instantiates reg)\<^sup>+\<^sup>+ B B"
    by (auto simp add: reaches_cycle_def)
  from b(1) show ?thesis
    by (rule hits_path_prefix) (rule hits_path_cycle [OF b(2)])
qed

lemma hits_path_sound:
  "hits_path reg D A \<Longrightarrow> (\<exists>B \<in> D. (instantiates reg)\<^sup>*\<^sup>* A B) \<or> reaches_cycle reg A"
proof (induction rule: hits_path.induct)
  case (on_path A D)
  then show ?case by blast
next
  case (descend A B D)
  from descend.IH show ?case
  proof (elim disjE bexE)
    fix C assume c: "C \<in> insert A D" "(instantiates reg)\<^sup>*\<^sup>* B C"
    show ?thesis
    proof (cases "C = A")
      case True
      with c descend.hyps(1) have "(instantiates reg)\<^sup>+\<^sup>+ A A"
        by (metis rtranclp_into_tranclp2)
      then have "reaches_cycle reg A"
        unfolding reaches_cycle_def by blast
      then show ?thesis ..
    next
      case False
      with c have "C \<in> D" by simp
      moreover from c descend.hyps(1) have "(instantiates reg)\<^sup>*\<^sup>* A C"
        by (metis converse_rtranclp_into_rtranclp)
      ultimately show ?thesis by blast
    qed
  next
    assume "reaches_cycle reg B"
    then obtain X where "(instantiates reg)\<^sup>*\<^sup>* B X" "(instantiates reg)\<^sup>+\<^sup>+ X X"
      by (auto simp add: reaches_cycle_def)
    with descend.hyps(1) have "reaches_cycle reg A"
      unfolding reaches_cycle_def by (metis converse_rtranclp_into_rtranclp)
    then show ?thesis ..
  qed
qed

lemma hits_path_empty: "hits_path reg {} A = reaches_cycle reg A"
  using hits_path_sound [of reg "{}" A] reaches_cycle_hits_path [of reg A "{}"] by blast

lemma find_reference_pairs_ident:
  "find_reference_pairs ps k = Some val \<Longrightarrow> ident val \<noteq> None"
  by (induction ps) (auto split: if_splits)

lemma find_reference_ident:
  "checker_find_reference d k = Some val \<Longrightarrow> ident val = Some (the (ident val))"
  using find_reference_pairs_ident [of "pairs (attrs d)" k val]
  by (auto simp add: checker_find_reference_def)

lemma templates_resolved_step:
  "templates_resolved reg A \<Longrightarrow> instantiates reg A B \<Longrightarrow> templates_resolved reg B"
  unfolding templates_resolved_def by (metis converse_rtranclp_into_rtranclp)

lemma templates_resolved_found:
  "templates_resolved reg A \<Longrightarrow> \<exists>t. checker_find_subcircuit reg (Some A) = Some t"
  unfolding templates_resolved_def by blast

lemma hits_path_off_path:
  "A \<notin> D \<Longrightarrow> hits_path reg D A = (\<exists>B. instantiates reg A B \<and> hits_path reg (insert A D) B)"
  by (auto intro: descend elim: hits_path.cases)

lemma sub_cycles_correct:
  "checker_find_subcircuit reg (Some ty) = Some rt \<Longrightarrow> templates_resolved reg ty \<Longrightarrow>
     \<exists>e d'. checker_validate_sub_cycles reg rt ty inst deps = Some (e, d') \<and>
       (e \<noteq> []) = hits_path reg (set deps) ty"
  "(\<forall>B \<in> set (sub_types ds). templates_resolved reg B) \<Longrightarrow>
   (errors = [] \<Longrightarrow> \<forall>B \<in> set checked. \<not> hits_path reg (set deps) B) \<Longrightarrow>
     \<exists>e d'. sub_cycles_loop reg ds inst deps checked errors = Some (e, d') \<and>
       (errors \<noteq> [] \<longrightarrow> e \<noteq> []) \<and>
       (errors = [] \<longrightarrow> (e \<noteq> []) = (\<exists>B \<in> set (sub_types ds). hits_path reg (set deps) B))"
proof (induction reg rt ty inst deps and reg ds inst deps checked errors
       rule: checker_validate_sub_cycles_sub_cycles_loop.induct)
  case (1 reg rt ty inst deps)
  show ?case
  proof (cases "ty \<in> set deps")
    case True
    then show ?thesis by (simp add: on_path)
  next
    case False
    have inst: "instantiates reg ty B = (B \<in> set (sub_types (sub rt)))" for B
      using "1.prems"(1) by (simp add: instantiates_def)
    have res: "\<forall>B \<in> set (sub_types (sub rt)). templates_resolved reg B"
      using "1.prems"(2) inst templates_resolved_step by blast
    from "1.IH" [OF False res] obtain e d'
      where e: "sub_cycles_loop reg (sub rt) inst (deps @ [ty]) [] [] = Some (e, d')"
        and iff: "(e \<noteq> []) = (\<exists>B \<in> set (sub_types (sub rt)). hits_path reg (set (deps @ [ty])) B)"
      by auto
    have "hits_path reg (set deps) ty =
        (\<exists>B \<in> set (sub_types (sub rt)). hits_path reg (set (deps @ [ty])) B)"
      using hits_path_off_path [OF False, of reg] inst by auto
    with e iff False show ?thesis by simp
  qed
next
  case (2 reg inst deps checked errors)
  show ?case by simp
next
  case (3 reg d ds inst deps checked errors)
  note IH = "3.IH" and res = "3.prems"(1) and chk = "3.prems"(2)
  show ?case
  proof (cases "type (attrs d) = ''Sub''")
    case False
    then have st: "sub_types (d # ds) = sub_types ds" by simp
    from IH(6) [OF False] res chk st False show ?thesis by simp
  next
    case True
    show ?thesis
    proof (cases "checker_find_reference d ''Type''")
      case None
      with True have st: "sub_types (d # ds) = sub_types ds" by simp
      from IH(1) [OF True None] res chk st True None show ?thesis by simp
    next
      case (Some val)
      define B where "B = the (ident val)"
      from Some have idt: "ident val = Some B"
        unfolding B_def by (rule find_reference_ident)
      from True Some have st: "sub_types (d # ds) = B # sub_types ds"
        by (simp add: B_def)
      from res st have resB: "templates_resolved reg B"
        and resds: "\<forall>B \<in> set (sub_types ds). templates_resolved reg B"
        by simp_all
      show ?thesis
      proof (cases "B \<in> set checked")
        case c: True
        from IH(2) [OF True Some c [unfolded B_def] resds chk]
        obtain e d' where e: "sub_cycles_loop reg ds inst deps checked errors = Some (e, d')"
          and e1: "errors \<noteq> [] \<longrightarrow> e \<noteq> []"
          and e2: "errors = [] \<longrightarrow>
                (e \<noteq> []) = (\<exists>B \<in> set (sub_types ds). hits_path reg (set deps) B)"
          by blast
        from chk c have "errors = [] \<longrightarrow> \<not> hits_path reg (set deps) B" by blast
        with e e1 e2 True Some c st show ?thesis
          by (auto simp add: B_def)
      next
        case c: False
        from templates_resolved_found [OF resB] idt obtain s
          where s: "checker_find_subcircuit reg (ident val) = Some s" by auto
        from find_subcircuit_Some [OF s] idt have sB: "instance (attrs s) = B" by simp
        from s idt sB have s': "checker_find_subcircuit reg (Some (instance (attrs s))) = Some s"
          by simp
        from resB sB have res': "templates_resolved reg (instance (attrs s))" by simp
        have "\<exists>error deps1.
            checker_validate_sub_cycles reg s (instance (attrs s)) inst deps = Some (error, deps1) \<and>
            (error \<noteq> []) = hits_path reg (set deps) (instance (attrs s))"
          by (rule IH(3) [OF True Some c [unfolded B_def] s s' res'])
        then obtain error deps1
          where r: "checker_validate_sub_cycles reg s (instance (attrs s)) inst deps =
                      Some (error, deps1)"
            and riff: "(error \<noteq> []) = hits_path reg (set deps) B"
          unfolding sB by blast
        show ?thesis
        proof (cases "error = []")
          case e: True
          with riff have nh: "\<not> hits_path reg (set deps) B" by simp
          from chk nh have chk': "errors = [] \<Longrightarrow>
              \<forall>B' \<in> set (checked @ [the (ident val)]). \<not> hits_path reg (set deps) B'"
            by (auto simp add: B_def)
          have ee: "\<not> error \<noteq> []" using e by simp
          from IH(5) [OF True Some c [unfolded B_def] s r refl ee resds chk']
          obtain e' d' where
            l: "sub_cycles_loop reg ds inst deps (checked @ [the (ident val)]) errors =
                  Some (e', d')"
            and e1: "errors \<noteq> [] \<longrightarrow> e' \<noteq> []"
            and e2: "errors = [] \<longrightarrow>
                (e' \<noteq> []) = (\<exists>B \<in> set (sub_types ds). hits_path reg (set deps) B)"
            by blast
          from l e1 e2 nh True Some c s r e st show ?thesis
            by (auto simp add: B_def)
        next
          case e: False
          with riff have h: "hits_path reg (set deps) B" by simp
          from e have ne: "errors @ error \<noteq> []" by simp
          from IH(4) [OF True Some c [unfolded B_def] s r refl e resds] ne
          obtain e' d' where
            l: "sub_cycles_loop reg ds inst deps1 (checked @ [the (ident val)])
                  (errors @ error) = Some (e', d')"
            and e1: "e' \<noteq> []"
            by blast
          from l e1 h True Some c s r e st show ?thesis
            by (auto simp add: B_def)
        qed
      qed
    qed
  qed
qed

lemma sub_cycles_kind:
  "checker_validate_sub_cycles reg rt ty inst deps = Some (e, d') \<Longrightarrow>
     \<forall>x \<in> set e. kind x = CyclicSubcircuit"
  "sub_cycles_loop reg ds inst deps checked errors = Some (e, d') \<Longrightarrow>
     \<forall>x \<in> set errors. kind x = CyclicSubcircuit \<Longrightarrow>
     \<forall>x \<in> set e. kind x = CyclicSubcircuit"
proof (induction reg rt ty inst deps and reg ds inst deps checked errors
       arbitrary: e d' and e d'
       rule: checker_validate_sub_cycles_sub_cycles_loop.induct)
  case (1 reg rt ty inst deps)
  then show ?case by (auto split: if_splits)
next
  case (2 reg inst deps checked errors)
  then show ?case by simp
next
  case (3 reg d ds inst deps checked errors)
  note IH = "3.IH" and r = "3.prems"(1) and k = "3.prems"(2)
  show ?case
  proof (cases "type (attrs d) = ''Sub''")
    case False
    with r IH(6) [OF False _ k] show ?thesis by simp
  next
    case True
    show ?thesis
    proof (cases "checker_find_reference d ''Type''")
      case None
      with r True IH(1) [OF True None _ k] show ?thesis by simp
    next
      case (Some val)
      show ?thesis
      proof (cases "the (ident val) \<in> set checked")
        case c: True
        with r True Some IH(2) [OF True Some c _ k] show ?thesis by simp
      next
        case c: False
        from r True Some c obtain s error deps1
          where s: "checker_find_subcircuit reg (ident val) = Some s"
            and cy: "checker_validate_sub_cycles reg s (instance (attrs s)) inst deps =
                      Some (error, deps1)"
          by (auto split: option.splits)
        from IH(3) [OF True Some c s cy]
        have ke: "\<forall>x \<in> set error. kind x = CyclicSubcircuit" .
        show ?thesis
        proof (cases "error = []")
          case e: True
          then have ee: "\<not> error \<noteq> []" by simp
          from r True Some c s cy e
          have "sub_cycles_loop reg ds inst deps (checked @ [the (ident val)]) errors =
                  Some (e, d')" by simp
          from IH(5) [OF True Some c s cy refl ee this k] show ?thesis .
        next
          case e: False
          from r True Some c s cy e
          have l: "sub_cycles_loop reg ds inst deps1 (checked @ [the (ident val)])
                  (errors @ error) = Some (e, d')" by simp
          from k ke have "\<forall>x \<in> set (errors @ error). kind x = CyclicSubcircuit" by auto
          from IH(4) [OF True Some c s cy refl e l this] show ?thesis .
        qed
      qed
    qed
  qed
qed

lemma validate_sub_cycles_fresh:
  assumes "checker_find_subcircuit reg (Some ty) = Some t" and "templates_resolved reg ty"
  shows "\<exists>e deps. checker_validate_sub_cycles reg t ty inst [] = Some (e, deps) \<and>
     (\<forall>x \<in> set e. kind x = CyclicSubcircuit) \<and> (e \<noteq> []) = reaches_cycle reg ty"
proof -
  from sub_cycles_correct(1) [OF assms, of inst "[]"] obtain e deps
    where e: "checker_validate_sub_cycles reg t ty inst [] = Some (e, deps)"
      and i: "(e \<noteq> []) = hits_path reg {} ty"
    by auto
  from sub_cycles_kind(1) [OF e] e i show ?thesis
    by (simp add: hits_path_empty)
qed

lemma validate_subcircuits_cycles:
  assumes "\<forall>B \<in> set (sub_types rt). templates_resolved reg B"
  shows "\<exists>errors sc'. checker_validate_subcircuits reg sc rt = Some (errors, sc') \<and>
     (\<exists>x \<in> set errors. kind x = CyclicSubcircuit) = (\<exists>B \<in> set (sub_types rt). reaches_cycle reg B)"
  using assms
proof (induction rt arbitrary: sc)
  case Nil
  show ?case by simp
next
  case (Cons d ds)
  show ?case
  proof (cases "type (attrs d) = ''Sub''")
    case False
    with Cons.IH [of sc] Cons.prems show ?thesis by simp
  next
    case True
    show ?thesis
    proof (cases "checker_find_reference d ''Type''")
      case None
      with True Cons.prems have "\<forall>B \<in> set (sub_types ds). templates_resolved reg B" by simp
      from Cons.IH [OF this, of sc] obtain errors sc'
        where "checker_validate_subcircuits reg sc ds = Some (errors, sc')"
          and "(\<exists>x \<in> set errors. kind x = CyclicSubcircuit) =
               (\<exists>B \<in> set (sub_types ds). reaches_cycle reg B)"
        by blast
      with True None show ?thesis
        by (simp add: checker_validate_reference_def)
    next
      case (Some val)
      define B where "B = the (ident val)"
      from Some have idt: "ident val = Some B"
        unfolding B_def by (rule find_reference_ident)
      from True Some have st: "sub_types (d # ds) = B # sub_types ds"
        by (simp add: B_def)
      from Cons.prems st have resB: "templates_resolved reg B"
        and resds: "\<forall>B \<in> set (sub_types ds). templates_resolved reg B"
        by simp_all
      from templates_resolved_found [OF resB] obtain s
        where s: "checker_find_subcircuit reg (Some B) = Some s" by blast
      from find_subcircuit_Some [OF s] have sB: "instance (attrs s) = B" by simp
      from validate_sub_cycles_fresh [OF s resB, of "instance (attrs d)"] obtain err deps
        where cy: "checker_validate_sub_cycles reg s B (instance (attrs d)) [] = Some (err, deps)"
          and k: "\<forall>x \<in> set err. kind x = CyclicSubcircuit"
          and i: "(err \<noteq> []) = reaches_cycle reg B"
        by blast
      from Cons.IH [OF resds, of "int (length err)"] obtain errors sc'
        where r: "checker_validate_subcircuits reg (int (length err)) ds = Some (errors, sc')"
          and ri: "(\<exists>x \<in> set errors. kind x = CyclicSubcircuit) =
               (\<exists>B \<in> set (sub_types ds). reaches_cycle reg B)"
        by blast
      have "(\<exists>x \<in> set err. kind x = CyclicSubcircuit) = reaches_cycle reg B"
        using k i by (cases err) auto
      with ri True Some idt s sB cy r st show ?thesis
        by (auto simp add: checker_validate_reference_def)
    qed
  qed
qed

lemma cycle_reaches_cycle: "(instantiates reg)\<^sup>+\<^sup>+ A A \<Longrightarrow> reaches_cycle reg A"
  unfolding reaches_cycle_def by blast

text \<open>
  The cycle check where no template is missing: for the \<^verbatim>\<open>Sub\<close> statements of a list
  whose templates (and the templates these instantiate, to any depth) all exist, the
  check returns; for every instance, the cycle check of its template reports errors, all
  of them cyclic-definition errors, exactly when a cycle of instantiations can be reached
  from the template, so it reports one when the template is reachable from itself
  (directly or through other templates) and none when its instantiation graph is acyclic,
  whatever its depth; and the errors of the whole check contain a cyclic-definition error
  exactly when some instance refers to such a template.
\<close>

theorem subcircuit_cycles_detected:
  assumes "\<forall>B \<in> set (sub_types rt). templates_resolved reg B"
  shows "(\<forall>B \<in> set (sub_types rt). \<exists>t e deps.
        checker_find_subcircuit reg (Some B) = Some t \<and>
        checker_validate_sub_cycles reg t B inst [] = Some (e, deps) \<and>
        (\<forall>x \<in> set e. kind x = CyclicSubcircuit) \<and>
        ((instantiates reg)\<^sup>+\<^sup>+ B B \<longrightarrow> e \<noteq> []) \<and>
        (e = []) = (\<not> reaches_cycle reg B)) \<and>
     (\<exists>errors sc'. checker_validate_subcircuits reg sc rt = Some (errors, sc') \<and>
        (\<exists>x \<in> set errors. kind x = CyclicSubcircuit) =
        (\<exists>B \<in> set (sub_types rt). reaches_cycle reg B))"
proof (rule conjI)
  show "\<forall>B \<in> set (sub_types rt). \<exists>t e deps.
        checker_find_subcircuit reg (Some B) = Some t \<and>
        checker_validate_sub_cycles reg t B inst [] = Some (e, deps) \<and>
        (\<forall>x \<in> set e. kind x = CyclicSubcircuit) \<and>
        ((instantiates reg)\<^sup>+\<^sup>+ B B \<longrightarrow> e \<noteq> []) \<and>
        (e = []) = (\<not> reaches_cycle reg B)"
  proof
    fix B assume "B \<in> set (sub_types rt)"
    with assms have res: "templates_resolved reg B" by blast
    from templates_resolved_found [OF res] obtain t
      where t: "checker_find_subcircuit reg (Some B) = Some t" by blast
    from validate_sub_cycles_fresh [OF t res, of inst] obtain e deps
      where "checker_validate_sub_cycles reg t B inst [] = Some (e, deps)"
        and "\<forall>x \<in> set e. kind x = CyclicSubcircuit"
        and "(e \<noteq> []) = reaches_cycle reg B"
      by blast
    with t cycle_reaches_cycle [of reg B]
    show "\<exists>t e deps.
        checker_find_subcircuit reg (Some B) = Some t \<and>
        checker_validate_sub_cycles reg t B inst [] = Some (e, deps) \<and>
        (\<forall>x \<in> set e. kind x = CyclicSubcircuit) \<and>
        ((instantiates reg)\<^sup>+\<^sup>+ B B \<longrightarrow> e \<noteq> []) \<and>
        (e = []) = (\<not> reaches_cycle reg B)"
      by blast
  qed
  show "\<exists>errors sc'. checker_validate_subcircuits reg sc rt = Some (errors, sc') \<and>
        (\<exists>x \<in> set errors. kind x = CyclicSubcircuit) =
        (\<exists>B \<in> set (sub_types rt). reaches_cycle reg B)"
    by (rule validate_subcircuits_cycles [OF assms])
qed

lemmas example_defs =
  template_def sub_instance_def parsed_definition_def parsed_ident_def parsed_node_def
  parsed_number_def checker_validate_reference_def checker_find_reference_def
  checker_count_nodes_def map_attrs_def

lemma example_cyclic_instantiates:
  "instantiates example_cyclic X Y = (X = ''A'' \<and> Y = ''B'' \<or> X = ''B'' \<and> Y = ''A'')"
  by (auto simp add: instantiates_def example_cyclic_def example_defs)

lemma example_cyclic_resolved: "templates_resolved example_cyclic ''A''"
proof -
  have "(instantiates example_cyclic)\<^sup>*\<^sup>* ''A'' X \<Longrightarrow> X = ''A'' \<or> X = ''B''" for X
    by (induction rule: rtranclp_induct) (auto simp add: example_cyclic_instantiates)
  then show ?thesis
    unfolding templates_resolved_def
    by (auto simp add: example_cyclic_def example_defs)
qed

lemma example_chain_instantiates:
  "instantiates example_chain X Y = (X = ''T1'' \<and> Y = ''T2'' \<or> X = ''T2'' \<and> Y = ''T3'')"
  by (auto simp add: instantiates_def example_chain_def example_diode_def example_defs)

lemma example_chain_resolved: "templates_resolved example_chain ''T1''"
proof -
  have "(instantiates example_chain)\<^sup>*\<^sup>* ''T1'' X \<Longrightarrow> X = ''T1'' \<or> X = ''T2'' \<or> X = ''T3''" for X
    by (induction rule: rtranclp_induct) (auto simp add: example_chain_instantiates)
  then show ?thesis
    unfolding templates_resolved_def
    by (auto simp add: example_chain_def example_defs)
qed

lemma example_cyclic_check:
  "checker_validate_subcircuits example_cyclic 0 [sub_instance ''X0'' ''A'' [''n'']] =
     Some ([Err CyclicSubcircuit [''A'', ''X0'', ''A'', ''B'']], 1)"
  by (simp add: example_cyclic_def example_defs)

lemma example_chain_check:
  "checker_validate_subcircuits example_chain 0 [sub_instance ''X0'' ''T1'' [''n'']] =
     Some ([], 0)"
  by (simp add: example_chain_def example_diode_def example_defs)

lemma sub_types_sub_instance [simp]: "sub_types [sub_instance n ty ns] = [ty]"
  by (simp add: example_defs)

theorem subcircuit_cycles_detected_witness:
  "checker_validate_subcircuits example_cyclic 0 [sub_instance ''X0'' ''A'' [''n'']] =
     Some ([Err CyclicSubcircuit [''A'', ''X0'', ''A'', ''B'']], 1) \<and>
   reaches_cycle example_cyclic ''A'' \<and>
   checker_validate_subcircuits example_chain 0 [sub_instance ''X0'' ''T1'' [''n'']] =
     Some ([], 0) \<and>
   \<not> reaches_cycle example_chain ''T1''"
proof -
  have a: "\<forall>B \<in> set (sub_types [sub_instance ''X0'' ''A'' [''n'']]).
      templates_resolved example_cyclic B"
    by (simp only: sub_types_sub_instance) (simp add: example_cyclic_resolved)
  have b: "\<forall>B \<in> set (sub_types [sub_instance ''X0'' ''T1'' [''n'']]).
      templates_resolved example_chain B"
    by (simp only: sub_types_sub_instance) (simp add: example_chain_resolved)
  from subcircuit_cycles_detected [OF a, of "''X0''" 0, THEN conjunct2] example_cyclic_check
  have 1: "reaches_cycle example_cyclic ''A''"
    by (simp only: sub_types_sub_instance) simp
  from subcircuit_cycles_detected [OF b, of "''X0''" 0, THEN conjunct2] example_chain_check
  have 2: "\<not> reaches_cycle example_chain ''T1''"
    by (simp only: sub_types_sub_instance) simp
  from example_cyclic_check 1 example_chain_check 2 show ?thesis by blast
qed

text \<open>
  C2 does not hold of the code for every instance. \<^verbatim>\<open>checker_validate_sub_cycles\<close> looks up
  the template of an instance in the body of a template with \<^verbatim>\<open>checker_find_subcircuit\<close>
  and reads \<^verbatim>\<open>sub->instance\<close> without testing the result, where
  \<^verbatim>\<open>checker_validate_subcircuits\<close> tests it for an instance of the list itself and reports
  that there is no such subcircuit. In the example the type \<open>Missing\<close> names no template.
  The template \<open>A\<close> instantiates \<open>Missing\<close> and itself: it is reachable from itself, and the
  check of an instance of \<open>A\<close> does not return, so no cyclic-definition error is reported.
  The template \<open>L\<close> instantiates \<open>Missing\<close> only: no cycle can be reached from it, and the check
  of an instance of \<open>L\<close> does not return either, instead of reporting nothing.
\<close>

theorem subcircuit_cycles_undefined_type:
  "checker_find_subcircuit example_undefined (Some ''Missing'') = None \<and>
   (instantiates example_undefined)\<^sup>+\<^sup>+ ''A'' ''A'' \<and>
   checker_validate_sub_cycles example_undefined (example_undefined ! 0) ''A'' ''X0'' [] = None \<and>
   checker_validate_subcircuits example_undefined 0 [sub_instance ''X0'' ''A'' [''n'']] = None \<and>
   \<not> reaches_cycle example_undefined ''L'' \<and>
   checker_validate_sub_cycles example_undefined (example_undefined ! 1) ''L'' ''X0'' [] = None \<and>
   checker_validate_subcircuits example_undefined 0 [sub_instance ''X0'' ''L'' [''n'']] = None"
proof -
  have 1: "checker_find_subcircuit example_undefined (Some ''Missing'') = None"
    by (simp add: example_undefined_def example_defs)
  have "instantiates example_undefined ''A'' ''A''"
    by (simp add: instantiates_def example_undefined_def example_defs)
  then have 2: "(instantiates example_undefined)\<^sup>+\<^sup>+ ''A'' ''A''" by (rule tranclp.r_into_trancl)
  have 3: "checker_validate_sub_cycles example_undefined (example_undefined ! 0) ''A'' ''X0'' [] =
      None"
    by (simp add: example_undefined_def example_defs)
  have 4: "checker_validate_subcircuits example_undefined 0 [sub_instance ''X0'' ''A'' [''n'']] =
      None"
    by (simp add: example_undefined_def example_defs)
  have l: "instantiates example_undefined ''L'' X = (X = ''Missing'')" for X
    by (auto simp add: instantiates_def example_undefined_def example_defs)
  have m: "\<not> instantiates example_undefined ''Missing'' X" for X
    by (simp add: instantiates_def example_undefined_def example_defs)
  have r: "(instantiates example_undefined)\<^sup>*\<^sup>* ''L'' X \<Longrightarrow> X = ''L'' \<or> X = ''Missing''" for X
    by (induction rule: rtranclp_induct) (auto simp add: l m)
  have 5: "\<not> reaches_cycle example_undefined ''L''"
  proof
    assume "reaches_cycle example_undefined ''L''"
    then obtain B where B: "(instantiates example_undefined)\<^sup>*\<^sup>* ''L'' B"
      and c: "(instantiates example_undefined)\<^sup>+\<^sup>+ B B"
      unfolding reaches_cycle_def by blast
    from c obtain C where s: "instantiates example_undefined B C"
      and t: "(instantiates example_undefined)\<^sup>*\<^sup>* C B"
      by (metis tranclpD)
    from r [OF B] s m l have "B = ''L''" "C = ''Missing''" by auto
    with t have "(instantiates example_undefined)\<^sup>*\<^sup>* ''Missing'' ''L''" by simp
    then show False
      by (cases rule: converse_rtranclpE) (simp_all add: m)
  qed
  have 6: "checker_validate_sub_cycles example_undefined (example_undefined ! 1) ''L'' ''X0'' [] =
      None"
    by (simp add: example_undefined_def example_defs)
  have 7: "checker_validate_subcircuits example_undefined 0 [sub_instance ''X0'' ''L'' [''n'']] =
      None"
    by (simp add: example_undefined_def example_defs)
  from 1 2 3 4 5 6 7 show ?thesis by blast
qed

subsection \<open>The DC requirement\<close>

lemma count_nonlinearities_Nil [simp]: "checker_count_nonlinearities sc reg [] = Some 0"
  by (subst checker_count_nonlinearities.simps) simp

lemma count_nonlinearities_Cons:
  "checker_count_nonlinearities sc reg (d # ds) =
     Option.bind
       (if sc \<le> 0 \<and> type (attrs d) = ''Sub'' then
          (case checker_get_subcircuit reg d of
             Some s \<Rightarrow> checker_count_nonlinearities sc reg (sub s)
           | None \<Rightarrow> Some 0)
        else Some 0)
       (\<lambda>c. Option.bind (checker_count_nonlinearities sc reg ds)
          (\<lambda>r. Some ((if nonlinear (attrs d) \<noteq> 0 then 1 else 0) + c + r)))"
  by (subst checker_count_nonlinearities.simps) simp

lemma count_nonlinearities_flat:
  "0 < sc \<Longrightarrow> checker_count_nonlinearities sc reg rt = Some (sum_list (map nonlinear_here rt))"
  by (induction rt) (simp_all add: count_nonlinearities_Cons nonlinear_here_def)

lemma count_nonlinearities_list:
  assumes "\<forall>d \<in> set rt. \<forall>s. type (attrs d) = ''Sub'' \<longrightarrow> checker_get_subcircuit reg d = Some s \<longrightarrow>
     (\<exists>c. checker_count_nonlinearities sc reg (sub s) = Some c)"
  shows "checker_count_nonlinearities sc reg rt =
     Some (sum_list (map (\<lambda>d. nonlinear_here d + nonlinear_below sc reg d) rt))"
  using assms
proof (induction rt)
  case Nil
  show ?case by simp
next
  case (Cons d ds)
  then have IH: "checker_count_nonlinearities sc reg ds =
     Some (sum_list (map (\<lambda>d. nonlinear_here d + nonlinear_below sc reg d) ds))"
    by simp
  show ?case
  proof (cases "sc \<le> 0 \<and> type (attrs d) = ''Sub''")
    case False
    then show ?thesis
      by (auto simp add: count_nonlinearities_Cons IH nonlinear_here_def nonlinear_below_def)
  next
    case True
    show ?thesis
    proof (cases "checker_get_subcircuit reg d")
      case None
      with True show ?thesis
        by (simp add: count_nonlinearities_Cons IH nonlinear_here_def nonlinear_below_def)
    next
      case (Some s)
      with True Cons.prems obtain c
        where "checker_count_nonlinearities sc reg (sub s) = Some c" by auto
      with True Some show ?thesis
        by (simp add: count_nonlinearities_Cons IH nonlinear_here_def nonlinear_below_def)
    qed
  qed
qed

lemma finite_instantiates: "finite {(B, A). instantiates reg A B}"
proof -
  have "{(B, A). instantiates reg A B} \<subseteq>
      (\<Union>t \<in> set reg. set (sub_types (sub t))) \<times> (\<lambda>t. instance (attrs t)) ` set reg"
    by (auto simp add: instantiates_def dest!: find_subcircuit_Some)
  then show ?thesis
    by (rule finite_subset) simp
qed

lemma wf_acyclic_instantiates:
  "wf {(B, A). instantiates reg A B \<and> \<not> reaches_cycle reg A}"
proof (rule finite_acyclic_wf)
  show "finite {(B, A). instantiates reg A B \<and> \<not> reaches_cycle reg A}"
    by (rule finite_subset [OF _ finite_instantiates]) auto
next
  have sub: "(B, A) \<in> {(B, A). instantiates reg A B \<and> \<not> reaches_cycle reg A}\<^sup>+ \<Longrightarrow>
      (instantiates reg)\<^sup>+\<^sup>+ A B \<and> \<not> reaches_cycle reg A" for A B
  proof (induction rule: trancl_induct)
    case (base y)
    then show ?case by auto
  next
    case (step y z)
    then have "instantiates reg z y" "\<not> reaches_cycle reg z" by auto
    with step.IH show ?case
      by (metis tranclp_into_tranclp2)
  qed
  show "acyclic {(B, A). instantiates reg A B \<and> \<not> reaches_cycle reg A}"
    unfolding acyclic_def
  proof (intro allI notI)
    fix A assume "(A, A) \<in> {(B, A). instantiates reg A B \<and> \<not> reaches_cycle reg A}\<^sup>+"
    from sub [OF this] show False
      by (auto simp add: reaches_cycle_def)
  qed
qed

lemma reaches_cycle_step:
  "instantiates reg A B \<Longrightarrow> reaches_cycle reg B \<Longrightarrow> reaches_cycle reg A"
  unfolding reaches_cycle_def by (metis converse_rtranclp_into_rtranclp)

lemma get_subcircuit_sub_types:
  assumes "d \<in> set ds" "type (attrs d) = ''Sub''" "checker_get_subcircuit reg d = Some s"
  shows "instance (attrs s) \<in> set (sub_types ds) \<and>
         checker_find_subcircuit reg (Some (instance (attrs s))) = Some s"
proof -
  from assms(3) obtain val where v: "checker_find_reference d ''Type'' = Some val"
    and s: "checker_find_subcircuit reg (ident val) = Some s"
    by (auto simp add: checker_get_subcircuit_def split: option.splits)
  from find_subcircuit_Some [OF s] have i: "ident val = Some (instance (attrs s))" by simp
  from assms(1,2) v i have "instance (attrs s) \<in> set (sub_types ds)"
    by (induction ds) (auto split: option.splits)
  with s i show ?thesis by simp
qed

lemma count_nonlinearities_template:
  "\<not> reaches_cycle reg A \<Longrightarrow> checker_find_subcircuit reg (Some A) = Some t \<Longrightarrow>
   \<exists>c. checker_count_nonlinearities sc reg (sub t) = Some c"
proof (induction A arbitrary: t rule: wf_induct_rule [OF wf_acyclic_instantiates [of reg]])
  case (1 A)
  have "\<forall>d \<in> set (sub t). \<forall>s. type (attrs d) = ''Sub'' \<longrightarrow>
      checker_get_subcircuit reg d = Some s \<longrightarrow>
      (\<exists>c. checker_count_nonlinearities sc reg (sub s) = Some c)"
  proof (intro ballI allI impI)
    fix d s assume d: "d \<in> set (sub t)" "type (attrs d) = ''Sub''"
      "checker_get_subcircuit reg d = Some s"
    from get_subcircuit_sub_types [OF d]
    have B: "instance (attrs s) \<in> set (sub_types (sub t))"
      and f: "checker_find_subcircuit reg (Some (instance (attrs s))) = Some s" by simp_all
    from B "1.prems"(2) have e: "instantiates reg A (instance (attrs s))"
      by (auto simp add: instantiates_def)
    with "1.prems"(1) have n: "\<not> reaches_cycle reg (instance (attrs s))"
      using reaches_cycle_step by blast
    from e "1.prems"(1) have "(instance (attrs s), A) \<in>
        {(B, A). instantiates reg A B \<and> \<not> reaches_cycle reg A}" by simp
    from "1.IH" [OF this n f]
    show "\<exists>c. checker_count_nonlinearities sc reg (sub s) = Some c" .
  qed
  from count_nonlinearities_list [OF this] show ?case by blast
qed

lemma count_nonlinearities_total:
  assumes "0 < sc \<or> (\<forall>B \<in> set (sub_types rt). \<not> reaches_cycle reg B)"
  shows "checker_count_nonlinearities sc reg rt =
     Some (sum_list (map (\<lambda>d. nonlinear_here d + nonlinear_below sc reg d) rt))"
proof (cases "0 < sc")
  case True
  then have "nonlinear_below sc reg d = 0" for d by (simp add: nonlinear_below_def)
  with count_nonlinearities_flat [OF True] show ?thesis by simp
next
  case False
  with assms have ac: "\<forall>B \<in> set (sub_types rt). \<not> reaches_cycle reg B" by simp
  show ?thesis
  proof (rule count_nonlinearities_list, intro ballI allI impI)
    fix d s assume d: "d \<in> set rt" "type (attrs d) = ''Sub''"
      "checker_get_subcircuit reg d = Some s"
    from get_subcircuit_sub_types [OF d] ac
    have "\<not> reaches_cycle reg (instance (attrs s))"
      and "checker_find_subcircuit reg (Some (instance (attrs s))) = Some s" by auto
    then show "\<exists>c. checker_count_nonlinearities sc reg (sub s) = Some c"
      by (rule count_nonlinearities_template)
  qed
qed

lemma count_definitions_le:
  "checker_count_definitions rt (Some t) a \<le> checker_count_definitions rt None a"
  by (induction rt) auto

text \<open>
  C3, as stated, fails: the recursion of the nonlinearity count is not gated by the cycle
  check of the template it would enter, but by the global \<^verbatim>\<open>checker_sub_cycles\<close>, which
  holds the error count of the cycle check that ran last. In the example the cycle check
  of template \<open>N\<close> finds no cycle, the check of the body of the unrelated template \<open>A\<close>
  leaves the flag at 1, and with that flag the diode in \<open>N\<close> is not counted: the netlist
  has an AC analysis, a nonlinear statement in an instantiated subcircuit and no DC
  action, and the action check reports nothing.
\<close>

theorem validate_actions_gate_counterexample:
  "checker_validate_sub_cycles example_flag_reg (template ''N'' [''p''] [example_diode])
       ''N'' ''X1'' [] = Some ([], [''N'']) \<and>
   checker_validate_subcircuits example_flag_reg 0 [sub_instance ''X2'' ''A'' [''p'']] =
     Some ([Err CyclicSubcircuit [''A'', ''X2'', ''A'']], 1) \<and>
   checker_count_nonlinearities 1 example_flag_reg [example_diode] = Some 1 \<and>
   checker_count_nonlinearities 1 example_flag_reg example_flag_netlist = Some 0 \<and>
   fst (the (checker_validate_actions 1 example_flag_reg example_flag_netlist)) = [] \<and>
   checker_validate_actions 1 example_flag_reg example_flag_netlist \<noteq> None"
proof -
  have 1: "checker_validate_sub_cycles example_flag_reg (template ''N'' [''p''] [example_diode])
       ''N'' ''X1'' [] = Some ([], [''N''])"
    by (simp add: example_flag_reg_def example_diode_def example_defs)
  have 2: "checker_validate_subcircuits example_flag_reg 0 [sub_instance ''X2'' ''A'' [''p'']] =
     Some ([Err CyclicSubcircuit [''A'', ''X2'', ''A'']], 1)"
    by (simp add: example_flag_reg_def example_diode_def example_defs)
  have 3: "checker_count_nonlinearities 1 example_flag_reg [example_diode] = Some 1"
    by (simp add: count_nonlinearities_Cons example_diode_def example_defs)
  have 4: "checker_count_nonlinearities 1 example_flag_reg example_flag_netlist = Some 0"
    by (simp add: count_nonlinearities_Cons example_flag_netlist_def example_ac_def example_defs)
  have dc: "validate_actions_dc 1 example_flag_reg example_flag_netlist = Some []"
    unfolding validate_actions_dc_def 4
    by (simp add: example_flag_netlist_def example_ac_def example_defs)
  have para: "checker_validate_para example_flag_netlist = []"
    by (simp add: checker_validate_para_def example_flag_netlist_def example_ac_def example_defs)
  have ports: "checker_validate_ports example_flag_netlist = []"
    by (simp add: checker_validate_ports_def is_port_def example_flag_netlist_def example_ac_def
          example_defs)
  have lists: "\<exists>rt'. checker_validate_lists example_flag_netlist = Some ([], rt')"
    by (simp add: validate_lists_def_def checker_find_prop_value_def example_flag_netlist_def
          example_ac_def example_defs)
  from dc para ports lists
  have 5: "fst (the (checker_validate_actions 1 example_flag_reg example_flag_netlist)) = []"
    and 6: "checker_validate_actions 1 example_flag_reg example_flag_netlist \<noteq> None"
    by (auto simp add: checker_validate_actions_def)
  from 1 2 3 4 5 6 show ?thesis by blast
qed

text \<open>
  C3 (amended): for a netlist whose SW, AC and SP actions have a \<^verbatim>\<open>Type\<close> reference, and
  with the global cycle flag positive or no cycle of instantiations reachable from the
  netlist, the action check returns; it reports an error when more than one DC action
  exists, and an error when at least one AC or SP analysis coexists with at least one
  counted nonlinear statement and no DC action. The count \<open>c\<close> of nonlinear statements
  adds, for every \<^verbatim>\<open>Sub\<close> statement, the count of the body of its template when the global
  flag is not positive, and nothing when the flag is positive: the recursion is gated by
  the global flag, not by the template.
\<close>

theorem validate_actions_dc_requirement:
  assumes "\<forall>d \<in> set rt. is_sweep_action d \<longrightarrow> checker_find_reference d ''Type'' \<noteq> None"
    and "0 < sub_cycles \<or> (\<forall>B \<in> set (sub_types rt). \<not> reaches_cycle reg B)"
  shows "\<exists>c errors rt'.
     checker_count_nonlinearities sub_cycles reg rt = Some c \<and>
     c = sum_list (map (\<lambda>d. nonlinear_here d + nonlinear_below sub_cycles reg d) rt) \<and>
     (0 < sub_cycles \<longrightarrow> c = sum_list (map nonlinear_here rt)) \<and>
     checker_validate_actions sub_cycles reg rt = Some (errors, rt') \<and>
     (1 < checker_count_definitions rt (Some ''DC'') 1 \<longrightarrow>
        Err ExcessDcAction [] \<in> set errors) \<and>
     (1 \<le> checker_count_definitions rt (Some ''SP'') 1 +
            checker_count_definitions rt (Some ''AC'') 1 \<and>
      1 \<le> c \<and> checker_count_definitions rt (Some ''DC'') 1 < 1 \<longrightarrow>
        Err MissingDcAction [] \<in> set errors)"
proof -
  define c where "c = sum_list (map (\<lambda>d. nonlinear_here d + nonlinear_below sub_cycles reg d) rt)"
  have cnt: "checker_count_nonlinearities sub_cycles reg rt = Some c"
    unfolding c_def by (rule count_nonlinearities_total [OF assms(2)])
  have flat: "0 < sub_cycles \<longrightarrow> c = sum_list (map nonlinear_here rt)"
    using cnt count_nonlinearities_flat [of sub_cycles reg rt] by auto
  from assms(1) have "checker_validate_lists rt \<noteq> None"
    by (simp add: validate_lists_None)
  then obtain e4 rt' where lists: "checker_validate_lists rt = Some (e4, rt')"
    by (cases "checker_validate_lists rt") auto
  have "\<exists>e1. validate_actions_dc sub_cycles reg rt = Some e1"
    by (simp add: validate_actions_dc_def cnt Let_def)
  then obtain e1 where dc: "validate_actions_dc sub_cycles reg rt = Some e1" ..
  have ex: "1 < checker_count_definitions rt (Some ''DC'') 1 \<longrightarrow>
      Err ExcessDcAction [] \<in> set e1"
    using dc count_definitions_le [of rt "''DC''" 1]
    by (auto simp add: validate_actions_dc_def cnt Let_def split: if_splits)
  have mi: "1 \<le> checker_count_definitions rt (Some ''SP'') 1 +
            checker_count_definitions rt (Some ''AC'') 1 \<and>
      1 \<le> c \<and> checker_count_definitions rt (Some ''DC'') 1 < 1 \<longrightarrow>
        Err MissingDcAction [] \<in> set e1"
    using dc count_definitions_le [of rt "''SP''" 1] count_definitions_le [of rt "''AC''" 1]
    by (auto simp add: validate_actions_dc_def cnt Let_def split: if_splits)
  have va: "checker_validate_actions sub_cycles reg rt =
      Some (e1 @ checker_validate_para rt @ checker_validate_ports rt @ e4, rt')"
    by (simp add: checker_validate_actions_def dc lists)
  from cnt flat va ex mi show ?thesis
    unfolding c_def [symmetric] by auto
qed

lemma example_flag_acyclic: "\<not> reaches_cycle example_flag_reg ''N''"
proof -
  have n: "\<not> instantiates example_flag_reg ''N'' X" for X
    by (simp add: instantiates_def example_flag_reg_def example_diode_def example_defs)
  have "(instantiates example_flag_reg)\<^sup>*\<^sup>* ''N'' X \<Longrightarrow> X = ''N''" for X
    by (induction rule: rtranclp_induct) (auto simp add: n)
  then show ?thesis
    unfolding reaches_cycle_def using n by (metis tranclpD)
qed

theorem validate_actions_dc_requirement_witness:
  "checker_count_nonlinearities 0 example_flag_reg example_flag_netlist = Some 1 \<and>
   Err MissingDcAction [] \<in>
     set (fst (the (checker_validate_actions 0 example_flag_reg example_flag_netlist)))"
proof -
  have a: "\<forall>d \<in> set example_flag_netlist.
      is_sweep_action d \<longrightarrow> checker_find_reference d ''Type'' \<noteq> None"
    by (simp add: example_flag_netlist_def is_sweep_action_def example_ac_def example_defs)
  have st: "sub_types example_flag_netlist = [''N'']"
    by (simp add: example_flag_netlist_def example_ac_def example_defs)
  have b: "0 < (0::int) \<or> (\<forall>B \<in> set (sub_types example_flag_netlist).
      \<not> reaches_cycle example_flag_reg B)"
    by (simp add: st example_flag_acyclic)
  have body: "checker_count_nonlinearities 0 example_flag_reg [example_diode] = Some 1"
    by (simp add: count_nonlinearities_Cons example_diode_def example_defs)
  have c: "sum_list (map (\<lambda>d. nonlinear_here d + nonlinear_below 0 example_flag_reg d)
      example_flag_netlist) = 1"
    using body
    by (simp add: example_flag_netlist_def nonlinear_here_def nonlinear_below_def
          checker_get_subcircuit_def example_flag_reg_def example_ac_def example_defs)
  have n: "checker_count_definitions example_flag_netlist (Some ''SP'') 1 = 0"
     "checker_count_definitions example_flag_netlist (Some ''AC'') 1 = 1"
     "checker_count_definitions example_flag_netlist (Some ''DC'') 1 = 0"
    by (simp_all add: example_flag_netlist_def example_ac_def example_defs)
  from validate_actions_dc_requirement [OF a b] show ?thesis
    unfolding c n by auto
qed

text \<open>With the flag not positive the count does not return on templates that instantiate
  each other: every call for the body of \<open>A\<close> needs the result of a call for the body of
  \<open>B\<close>, and the other way round.\<close>

lemma count_nonlinearities_cycle_body:
  assumes "checker_count_nonlinearities sc0 reg0 rt0 = Some y0"
  shows "\<not> (sc0 = 0 \<and> reg0 = example_cyclic \<and>
            (rt0 = sub (example_cyclic ! 0) \<or> rt0 = sub (example_cyclic ! 1)))"
proof (rule checker_count_nonlinearities.raw_induct
    [where P = "\<lambda>sc reg rt y. \<not> (sc = 0 \<and> reg = example_cyclic \<and>
                  (rt = sub (example_cyclic ! 0) \<or> rt = sub (example_cyclic ! 1)))",
     OF _ assms], goal_cases)
  case (1 f sc reg rt y)
  note hyp = "1"(1) and eq = "1"(2)
  have A: "checker_get_subcircuit example_cyclic (sub_instance ''X1'' ''B'' [''p'']) =
      Some (example_cyclic ! 1)"
    by (simp add: checker_get_subcircuit_def example_cyclic_def example_defs)
  have B: "checker_get_subcircuit example_cyclic (sub_instance ''X2'' ''A'' [''p'']) =
      Some (example_cyclic ! 0)"
    by (simp add: checker_get_subcircuit_def example_cyclic_def example_defs)
  have bA: "sub (example_cyclic ! 0) = [sub_instance ''X1'' ''B'' [''p'']]"
    and bB: "sub (example_cyclic ! 1) = [sub_instance ''X2'' ''A'' [''p'']]"
    by (simp_all add: example_cyclic_def template_def parsed_definition_def)
  have ty: "type (attrs (sub_instance n t ns)) = ''Sub''" for n t ns
    by (simp add: example_defs)
  show ?case
  proof
    assume a: "sc = 0 \<and> reg = example_cyclic \<and>
        (rt = sub (example_cyclic ! 0) \<or> rt = sub (example_cyclic ! 1))"
    then consider "rt = [sub_instance ''X1'' ''B'' [''p'']]" | "rt = [sub_instance ''X2'' ''A'' [''p'']]"
      using bA bB by auto
    then show False
    proof cases
      case 1
      with eq a A obtain c where "f 0 example_cyclic (sub (example_cyclic ! 1)) = Some c"
        by (auto simp add: ty split: Option.bind_splits)
      from hyp [OF this] show False by simp
    next
      case 2
      with eq a B obtain c where "f 0 example_cyclic (sub (example_cyclic ! 0)) = Some c"
        by (auto simp add: ty split: Option.bind_splits)
      from hyp [OF this] show False by simp
    qed
  qed
qed

lemma count_nonlinearities_cycle:
  "checker_count_nonlinearities 0 example_cyclic [sub_instance ''X0'' ''A'' [''n'']] = None"
proof -
  have "checker_count_nonlinearities 0 example_cyclic (sub (example_cyclic ! 0)) = None"
    using count_nonlinearities_cycle_body [of 0 example_cyclic "sub (example_cyclic ! 0)"]
    by (cases "checker_count_nonlinearities 0 example_cyclic (sub (example_cyclic ! 0))") auto
  moreover have "checker_get_subcircuit example_cyclic (sub_instance ''X0'' ''A'' [''n'']) =
      Some (example_cyclic ! 0)"
    by (simp add: checker_get_subcircuit_def example_cyclic_def example_defs)
  moreover have "type (attrs (sub_instance ''X0'' ''A'' [''n''])) = ''Sub''"
    by (simp add: example_defs)
  ultimately show ?thesis
    by (simp add: count_nonlinearities_Cons)
qed

subsection \<open>Expansion: node names\<close>

lemma copy_subcircuits_loop_Nil [simp]:
  "copy_subcircuits_loop reg ty inst instances [] rt = Some rt"
  by (subst copy_subcircuits_loop.simps) simp

lemma copy_subcircuits_loop_Cons:
  "copy_subcircuits_loop reg ty inst instances (d # ds) rt =
     (case checker_xlat_subcircuit_nodes ty inst d of
        None \<Rightarrow> None
      | Some d' \<Rightarrow>
          if type (attrs d') = ''Sub'' then
            (case checker_get_subcircuit reg d' of
               None \<Rightarrow> None
             | Some s \<Rightarrow>
                 Option.bind
                   (copy_subcircuits_loop reg s d'
                      (Some (instance_copy instances @ [instance (attrs inst)])) (sub s) [])
                   (\<lambda>cp.
                      if cp \<noteq> [] then
                        (case copy_circuit_nodes_all ty inst d'
                                (checker_subcircuit_instance_list
                                   (Some (instance_copy instances))) cp of
                           None \<Rightarrow> None
                         | Some cp' \<Rightarrow>
                             copy_subcircuits_loop reg ty inst
                               (Some (instance_copy instances)) ds (cp' @ rt))
                      else copy_subcircuits_loop reg ty inst
                             (Some (instance_copy instances)) ds rt))
          else
            copy_subcircuits_loop reg ty inst instances ds
              (copy_element ty inst instances d' # rt))"
  by (subst copy_subcircuits_loop.simps) simp

lemma expand_subcircuits_loop_Nil [simp]: "expand_subcircuits_loop reg pre [] = Some pre"
  by (subst expand_subcircuits_loop.simps) simp

lemma expand_subcircuits_loop_Cons:
  "expand_subcircuits_loop reg pre (d # ds) =
     (if type (attrs d) = ''Sub'' then
        (case checker_get_subcircuit reg d of
           None \<Rightarrow> None
         | Some s \<Rightarrow>
             (case checker_copy_subcircuits reg s d None of
                None \<Rightarrow> None
              | Some cp \<Rightarrow>
                  if cp \<noteq> [] then expand_subcircuits_loop reg cp (pre @ ds)
                  else expand_subcircuits_loop reg pre ds))
      else expand_subcircuits_loop reg (pre @ [d]) ds)"
  by (subst expand_subcircuits_loop.simps) simp

lemmas expansion_defs =
  checker_expand_subcircuits_def checker_copy_subcircuits_def copy_subcircuits_loop_Cons
  expand_subcircuits_loop_Cons checker_xlat_subcircuit_nodes_def checker_get_subcircuit_def
  copy_element_def checker_copy_subcircuit_def checker_copy_subcircuit_nodes_def
  copy_node_def checker_subcircuit_instance_list_def checker_subcircuit_instance_def
  checker_subcircuit_node_def instance_copy_def checker_copy_circuit_nodes_def
  copy_circuit_node_def checker_get_circuit_node_def names_of_def

lemma two_level_expansion:
  assumes "n1 \<noteq> p" "n1 \<noteq> g" "n1 \<noteq> ''gnd''" "p \<noteq> ''gnd''" "g \<noteq> ''gnd''" "p \<noteq> g" "a \<noteq> ''gnd''"
  shows "map_option (map names_of)
      (checker_expand_subcircuits (two_level_reg innerInst p g n1 a)
         (two_level_netlist outer ext)) =
     Some [(''Outer.'' @ outer @ ''.R2'', [Some ext, Some ''gnd'']),
           (''Inner.'' @ outer @ ''.'' @ innerInst @ ''.R1'',
            [Some ext, Some (''Inner.'' @ outer @ ''.'' @ innerInst @ ''.'' @ n1),
             Some ''gnd'', Some ''gnd''])]"
  using assms
  by (simp add: two_level_reg_def two_level_netlist_def expansion_defs example_defs Let_def)

subsection \<open>Expansion: order of the statements\<close>

lemma copy_element_instance_copy:
  "copy_element ty inst (Some (instance_copy instances)) d = copy_element ty inst instances d"
  by (cases instances)
     (simp_all add: copy_element_def checker_subcircuit_instance_list_def instance_copy_def)

lemma instance_copy_Some [simp]: "instance_copy (Some l) = l"
  by (simp add: instance_copy_def)

lemma bind_those_Some:
  "Option.bind (those (Some p # xs)) (\<lambda>ps. Some (concat (rev ps) @ rt)) =
   Option.bind (those xs) (\<lambda>ps. Some (concat (rev ps) @ p @ rt))"
  by (cases "those xs") simp_all

lemma bind_those_None: "Option.bind (those (None # xs)) f = None"
  by simp

lemma copy_subcircuits_loop_pieces:
  "copy_subcircuits_loop reg ty inst instances defs rt =
     Option.bind (those (map (copy_piece reg ty inst (instance_copy instances)) defs))
       (\<lambda>ps. Some (concat (rev ps) @ rt))"
proof (induction defs arbitrary: instances rt)
  case Nil
  show ?case by simp
next
  case (Cons d ds)
  let ?path = "instance_copy instances"
  note IH = Cons.IH
  show ?case
  proof (cases "checker_xlat_subcircuit_nodes ty inst d")
    case None
    then have "copy_piece reg ty inst ?path d = None" by (simp add: copy_piece_def)
    with None show ?thesis by (simp add: copy_subcircuits_loop_Cons)
  next
    case (Some d')
    show ?thesis
    proof (cases "type (attrs d') = ''Sub''")
      case False
      with Some have "copy_piece reg ty inst ?path d = Some [copy_element ty inst instances d']"
        by (simp add: copy_piece_def copy_element_instance_copy)
      with Some False show ?thesis
        by (simp add: copy_subcircuits_loop_Cons IH bind_those_Some del: those.simps)
    next
      case True
      show ?thesis
      proof (cases "checker_get_subcircuit reg d'")
        case None
        with Some True have "copy_piece reg ty inst ?path d = None" by (simp add: copy_piece_def)
        with Some True None show ?thesis by (simp add: copy_subcircuits_loop_Cons)
      next
        case s: (Some s)
        show ?thesis
        proof (cases "copy_subcircuits_loop reg s d'
                        (Some (?path @ [instance (attrs inst)])) (sub s) []")
          case None
          with Some True s have "copy_piece reg ty inst ?path d = None"
            by (simp add: copy_piece_def checker_copy_subcircuits_def)
          with Some True s None show ?thesis by (simp add: copy_subcircuits_loop_Cons)
        next
          case cp: (Some cp)
          from Some True s cp have pc: "copy_piece reg ty inst ?path d =
              copy_circuit_nodes_all ty inst d' (checker_subcircuit_instance_list (Some ?path)) cp"
            by (simp add: copy_piece_def checker_copy_subcircuits_def)
          show ?thesis
          proof (cases "cp = []")
            case e: True
            with pc have "copy_piece reg ty inst ?path d = Some []" by simp
            with Some True s cp e show ?thesis
              by (simp add: copy_subcircuits_loop_Cons IH bind_those_Some del: those.simps)
          next
            case e: False
            show ?thesis
            proof (cases "copy_circuit_nodes_all ty inst d'
                            (checker_subcircuit_instance_list (Some ?path)) cp")
              case None
              with pc have "copy_piece reg ty inst ?path d = None" by simp
              with Some True s cp e None show ?thesis by (simp add: copy_subcircuits_loop_Cons)
            next
              case cp': (Some cp')
              with pc have "copy_piece reg ty inst ?path d = Some cp'" by simp
              with Some True s cp e cp' show ?thesis
                by (simp add: copy_subcircuits_loop_Cons IH bind_those_Some del: those.simps)
            qed
          qed
        qed
      qed
    qed
  qed
qed
lemma type_copy_element [simp]:
  "type (attrs (copy_element ty inst instances d)) = type (attrs d)"
  by (simp add: copy_element_def checker_copy_subcircuit_nodes_def checker_copy_subcircuit_def
        Let_def)

lemma copy_circuit_nodes_type:
  "checker_copy_circuit_nodes ty inst s c l = Some c' \<Longrightarrow> type (attrs c') = type (attrs c)"
  by (auto simp add: checker_copy_circuit_nodes_def)

lemma copy_circuit_nodes_all_no_sub:
  "copy_circuit_nodes_all ty inst s l cs = Some cs' \<Longrightarrow>
   \<forall>d \<in> set cs. \<not> is_sub d \<Longrightarrow> \<forall>d \<in> set cs'. \<not> is_sub d"
proof (induction cs arbitrary: cs')
  case Nil
  then show ?case by simp
next
  case (Cons c cs)
  from Cons.prems(1) obtain c' cs1
    where c': "checker_copy_circuit_nodes ty inst s c l = Some c'"
      and cs1: "copy_circuit_nodes_all ty inst s l cs = Some cs1"
      and eq: "cs' = c' # cs1"
    by (auto split: option.splits)
  from Cons.IH [OF cs1] Cons.prems(2) have "\<forall>d \<in> set cs1. \<not> is_sub d" by simp
  moreover from copy_circuit_nodes_type [OF c'] Cons.prems(2) have "\<not> is_sub c'"
    by (simp add: is_sub_def)
  ultimately show ?case by (simp add: eq)
qed

lemma copy_subcircuits_loop_no_sub:
  assumes "copy_subcircuits_loop reg0 ty0 inst0 instances0 defs0 rt0 = Some y0"
  shows "(\<forall>d \<in> set rt0. \<not> is_sub d) \<longrightarrow> (\<forall>d \<in> set y0. \<not> is_sub d)"
proof (rule copy_subcircuits_loop.raw_induct
    [where P = "\<lambda>reg ty inst instances defs rt y.
                  (\<forall>d \<in> set rt. \<not> is_sub d) \<longrightarrow> (\<forall>d \<in> set y. \<not> is_sub d)",
     OF _ assms], goal_cases)
  case (1 f reg ty inst instances defs rt y)
  note hyp = "1"(1) and eq = "1"(2)
  show ?case
  proof (cases defs)
    case Nil
    with eq show ?thesis by simp
  next
    case (Cons d ds)
    with eq obtain d' where x: "checker_xlat_subcircuit_nodes ty inst d = Some d'"
      by (auto split: option.splits)
    show ?thesis
    proof (cases "type (attrs d') = ''Sub''")
      case False
      with eq Cons x
      have "f reg ty inst instances ds (copy_element ty inst instances d' # rt) = Some y"
        by simp
      from hyp [OF this] False show ?thesis by (simp add: is_sub_def)
    next
      case True
      with eq Cons x obtain s cp where s: "checker_get_subcircuit reg d' = Some s"
        and cp: "f reg s d' (Some (instance_copy instances @ [instance (attrs inst)]))
                   (sub s) [] = Some cp"
        by (auto split: option.splits Option.bind_splits)
      from hyp [OF cp] have ns: "\<forall>d \<in> set cp. \<not> is_sub d" by simp
      show ?thesis
      proof (cases "cp = []")
        case e: True
        with eq Cons x True s cp
        have "f reg ty inst (Some (instance_copy instances)) ds rt = Some y" by simp
        from hyp [OF this] show ?thesis .
      next
        case e: False
        with eq Cons x True s cp obtain cp'
          where cp': "copy_circuit_nodes_all ty inst d'
                        (checker_subcircuit_instance_list (Some (instance_copy instances))) cp =
                      Some cp'"
            and r: "f reg ty inst (Some (instance_copy instances)) ds (cp' @ rt) = Some y"
          by (auto split: option.splits)
        from copy_circuit_nodes_all_no_sub [OF cp' ns] hyp [OF r] show ?thesis by auto
      qed
    qed
  qed
qed

lemma copy_subcircuits_no_sub:
  "checker_copy_subcircuits reg ty inst instances = Some cp \<Longrightarrow> \<forall>d \<in> set cp. \<not> is_sub d"
  unfolding checker_copy_subcircuits_def
  using copy_subcircuits_loop_no_sub [of reg ty inst instances "sub ty" "[]" cp] by simp

lemma expand_piece_no_sub: "expand_piece reg d = Some cp \<Longrightarrow> \<forall>d \<in> set cp. \<not> is_sub d"
  by (auto simp add: expand_piece_def split: option.splits dest: copy_subcircuits_no_sub)

lemma expand_rescan:
  "\<forall>d \<in> set pre'. \<not> is_sub d \<Longrightarrow>
   expand_subcircuits_loop reg pre (pre' @ ds) = expand_subcircuits_loop reg (pre @ pre') ds"
  by (induction pre' arbitrary: pre) (simp_all add: expand_subcircuits_loop_Cons is_sub_def)

lemma expand_subcircuits_loop_pieces:
  "\<forall>d \<in> set pre. \<not> is_sub d \<Longrightarrow>
   expand_subcircuits_loop reg pre defs =
     Option.bind (those (map (expand_piece reg) (filter is_sub defs)))
       (\<lambda>cs. Some (concat (rev cs) @ pre @ filter (\<lambda>d. \<not> is_sub d) defs))"
proof (induction defs arbitrary: pre)
  case Nil
  show ?case by simp
next
  case (Cons d ds)
  show ?case
  proof (cases "is_sub d")
    case False
    with Cons.prems have "\<forall>x \<in> set (pre @ [d]). \<not> is_sub x" by simp
    from Cons.IH [OF this] False show ?thesis
      by (simp add: expand_subcircuits_loop_Cons is_sub_def)
  next
    case True
    show ?thesis
    proof (cases "expand_piece reg d")
      case None
      with True show ?thesis
        by (auto simp add: expand_subcircuits_loop_Cons is_sub_def expand_piece_def
              split: option.splits)
    next
      case (Some cp)
      from expand_piece_no_sub [OF Some] Cons.prems
      have ns: "\<forall>x \<in> set (cp @ pre). \<not> is_sub x" by auto
      have "expand_subcircuits_loop reg pre (d # ds) = expand_subcircuits_loop reg (cp @ pre) ds"
      proof (cases "cp = []")
        case True
        with Some \<open>is_sub d\<close> show ?thesis
          by (auto simp add: expand_subcircuits_loop_Cons is_sub_def expand_piece_def
                split: option.splits)
      next
        case False
        with Some \<open>is_sub d\<close>
        have "expand_subcircuits_loop reg pre (d # ds) = expand_subcircuits_loop reg cp (pre @ ds)"
          by (auto simp add: expand_subcircuits_loop_Cons is_sub_def expand_piece_def
                split: option.splits)
        with expand_rescan [OF Cons.prems, of reg cp ds] show ?thesis by simp
      qed
      with Cons.IH [OF ns] True Some show ?thesis
        by (simp add: bind_those_Some del: those.simps)
    qed
  qed
qed
text \<open>
  C7, as stated, fails: the copies of the body of the template come out in reverse body
  order, and they are put in front of the main sequence, not in place of the
  \<^verbatim>\<open>Sub\<close> statement. For the netlist \<open>R0, X1\<close> with \<open>X1\<close> an instance of the template
  with body \<open>R1, R2\<close> the flat list is \<open>T.X1.R2, T.X1.R1, R0\<close>.
\<close>

theorem expansion_order_counterexample:
  "map_option (map (\<lambda>d. instance (attrs d)))
     (checker_expand_subcircuits example_order_reg example_order_netlist) =
     Some [''T.X1.R2'', ''T.X1.R1'', ''R0''] \<and>
   map_option (map (\<lambda>d. instance (attrs d)))
     (checker_expand_subcircuits example_order_reg example_order_netlist) \<noteq>
     Some [''R0'', ''T.X1.R1'', ''T.X1.R2'']"
  by (simp add: example_order_reg_def example_order_netlist_def expansion_defs example_defs
        Let_def)

text \<open>
  C7 (amended): when the subcircuit instances of a netlist are expanded, the \<^verbatim>\<open>Sub\<close>
  statements are removed and the flattened statements produced for them are put in front
  of the remaining statements, the copies of a later instance before those of an earlier
  one; the remaining statements keep their order. The copy of a template is the
  concatenation of the pieces of its body statements in reverse body order (the reversed
  list is not reversed back), where the piece of an element is its copy and the piece of a
  nested instance is the copy of its template. The expansion fails if one of the pieces
  does.
\<close>

theorem expansion_order:
  "checker_expand_subcircuits reg rt =
     Option.bind (those (map (expand_piece reg) (filter is_sub rt)))
       (\<lambda>cs. Some (concat (rev cs) @ filter (\<lambda>d. \<not> is_sub d) rt)) \<and>
   checker_copy_subcircuits reg ty inst instances =
     Option.bind (those (map (copy_piece reg ty inst (instance_copy instances)) (sub ty)))
       (\<lambda>ps. Some (concat (rev ps)))"
proof
  show "checker_expand_subcircuits reg rt =
     Option.bind (those (map (expand_piece reg) (filter is_sub rt)))
       (\<lambda>cs. Some (concat (rev cs) @ filter (\<lambda>d. \<not> is_sub d) rt))"
    unfolding checker_expand_subcircuits_def
    using expand_subcircuits_loop_pieces [of "[]" reg rt] by simp
  show "checker_copy_subcircuits reg ty inst instances =
     Option.bind (those (map (copy_piece reg ty inst (instance_copy instances)) (sub ty)))
       (\<lambda>ps. Some (concat (rev ps)))"
    unfolding checker_copy_subcircuits_def
    using copy_subcircuits_loop_pieces [of reg ty inst instances "sub ty" "[]"] by simp
qed

subsection \<open>Expansion: the two-level scenario\<close>

lemma copy_node_gnd:
  "xlate n = None \<Longrightarrow> node n = Some ''gnd'' \<Longrightarrow>
   node (copy_node ty inst instances n) = Some ''gnd''"
  by (simp add: copy_node_def)

lemma copy_circuit_node_named:
  "node ncopy \<noteq> None \<Longrightarrow> copy_circuit_node ty inst s instances ncopy = Some ncopy"
  by (auto simp add: copy_circuit_node_def)

lemma copy_circuit_node_gnd:
  "node ncopy = None \<Longrightarrow> xlatenr ncopy \<noteq> 0 \<Longrightarrow>
   checker_get_circuit_node (nodes (attrs s)) (xlatenr ncopy) = Some n \<Longrightarrow>
   xlate n = None \<Longrightarrow> node n = Some ''gnd'' \<Longrightarrow>
   map_option node (copy_circuit_node ty inst s instances ncopy) = Some (Some ''gnd'')"
  by (simp add: copy_circuit_node_def)

text \<open>
  C4: in the two-level scenario (with \<open>n1\<close> different from the formal ports and from
  \<open>gnd\<close>, and no formal port called \<open>gnd\<close>) the element of \<open>Inner\<close> is flattened to a
  statement whose node for the internal node \<open>n1\<close> is \<open>Inner.outer.innerInst.n1\<close>, whose
  node for the formal port wired through \<open>Outer\<close>'s port to the external node is that
  external node \<open>ext\<close>, and whose ground nodes (the literal \<open>gnd\<close> of the element and the
  port wired to \<open>gnd\<close> in \<open>Outer\<close>) are \<open>gnd\<close>. At every level, a node \<open>gnd\<close> that is
  not a formal port is copied as \<open>gnd\<close>, a blank node that resolves to such a node becomes
  \<open>gnd\<close>, and a node that already has a name is not touched.
\<close>

theorem nested_node_names:
  assumes "n1 \<noteq> p" "n1 \<noteq> g" "n1 \<noteq> ''gnd''" "p \<noteq> ''gnd''" "g \<noteq> ''gnd''" "p \<noteq> g" "a \<noteq> ''gnd''"
  shows "map_option (map names_of)
      (checker_expand_subcircuits (two_level_reg innerInst p g n1 a)
         (two_level_netlist outer ext)) =
     Some [(''Outer.'' @ outer @ ''.R2'', [Some ext, Some ''gnd'']),
           (''Inner.'' @ outer @ ''.'' @ innerInst @ ''.R1'',
            [Some ext, Some (''Inner.'' @ outer @ ''.'' @ innerInst @ ''.'' @ n1),
             Some ''gnd'', Some ''gnd''])] \<and>
   checker_subcircuit_node ''Inner'' (Some outer) innerInst n1 =
     ''Inner.'' @ outer @ ''.'' @ innerInst @ ''.'' @ n1 \<and>
   (\<forall>ty inst instances n. xlate n = None \<longrightarrow> node n = Some ''gnd'' \<longrightarrow>
      node (copy_node ty inst instances n) = Some ''gnd'') \<and>
   (\<forall>ty inst s instances ncopy n. node ncopy = None \<longrightarrow> xlatenr ncopy \<noteq> 0 \<longrightarrow>
      checker_get_circuit_node (nodes (attrs s)) (xlatenr ncopy) = Some n \<longrightarrow>
      xlate n = None \<longrightarrow> node n = Some ''gnd'' \<longrightarrow>
      map_option node (copy_circuit_node ty inst s instances ncopy) = Some (Some ''gnd'')) \<and>
   (\<forall>ty inst s instances ncopy. node ncopy \<noteq> None \<longrightarrow>
      copy_circuit_node ty inst s instances ncopy = Some ncopy)"
  using two_level_expansion [OF assms]
    copy_node_gnd copy_circuit_node_gnd copy_circuit_node_named
  by (simp add: checker_subcircuit_node_def)

theorem nested_node_names_witness:
  "map_option (map names_of)
      (checker_expand_subcircuits (two_level_reg ''innerInst'' ''p'' ''g'' ''n1'' ''a'')
         (two_level_netlist ''outer'' ''ext'')) =
     Some [(''Outer.outer.R2'', [Some ''ext'', Some ''gnd'']),
           (''Inner.outer.innerInst.R1'',
            [Some ''ext'', Some ''Inner.outer.innerInst.n1'', Some ''gnd'', Some ''gnd''])]"
  using nested_node_names [where ?n1.0 = "''n1''" and p = "''p''" and g = "''g''" and a = "''a''"
      and innerInst = "''innerInst''" and outer = "''outer''" and ext = "''ext''"]
  by simp

subsection \<open>Duplicate definitions\<close>

lemma count_definition_loop_Cons:
  "count_definition_loop (d # ds) t i c =
     (if matches t i d
      then (fst (count_definition_loop ds t i (Suc c)),
            (if 0 < c then map_attrs (\<lambda>a. a\<lparr>duplicate := 1\<rparr>) d else d) #
            snd (count_definition_loop ds t i (Suc c)))
      else (fst (count_definition_loop ds t i c), d # snd (count_definition_loop ds t i c)))"
  by (simp add: matches_def Let_def case_prod_beta)

lemma count_definition_loop_fst:
  "fst (count_definition_loop ds t i c) = c + length (filter (matches t i) ds)"
  by (induction ds arbitrary: c)
     (simp_all add: count_definition_loop_Cons del: count_definition_loop.simps(2))

lemma count_definition_loop_length:
  "length (snd (count_definition_loop ds t i c)) = length ds"
  by (induction ds arbitrary: c)
     (simp_all add: count_definition_loop_Cons del: count_definition_loop.simps(2))

lemma count_definition_loop_nth:
  "k < length ds \<Longrightarrow>
   snd (count_definition_loop ds t i c) ! k =
     (if matches t i (ds ! k) \<and> 0 < c + length (filter (matches t i) (take k ds))
      then map_attrs (\<lambda>a. a\<lparr>duplicate := 1\<rparr>) (ds ! k) else ds ! k)"
proof (induction ds arbitrary: c k)
  case Nil
  then show ?case by simp
next
  case (Cons d ds)
  show ?case
  proof (cases k)
    case 0
    then show ?thesis
      by (simp add: count_definition_loop_Cons del: count_definition_loop.simps(2))
  next
    case (Suc k')
    with Cons.prems have k': "k' < length ds" by simp
    from Cons.IH [OF k', of "Suc c"] Cons.IH [OF k', of c] Suc show ?thesis
      by (auto simp add: count_definition_loop_Cons simp del: count_definition_loop.simps(2))
  qed
qed

lemma id_mark_untag [simp]: "id_mark (untag_definition d) = id_mark d"
  by (simp add: id_mark_def untag_definition_def)

lemma same_untag_id_mark:
  assumes "map untag_definition a = map untag_definition b"
  shows "map id_mark a = map id_mark b"
proof -
  have "map id_mark a = map id_mark (map untag_definition a)" by simp
  also have "\<dots> = map id_mark (map untag_definition b)" by (simp only: assms)
  also have "\<dots> = map id_mark b" by simp
  finally show ?thesis .
qed

lemma id_mark_list_update:
  "i < length rt \<Longrightarrow> id_mark d = id_mark (rt ! i) \<Longrightarrow> map id_mark (rt[i := d]) = map id_mark rt"
  by (simp add: map_update list_update_same_conv)

lemma id_mark_update_value: "map id_mark (update_value f pos rt) = map id_mark rt"
proof -
  obtain i j where pos: "pos = (i, j)" by (cases pos)
  show ?thesis
  proof (cases "i < length rt")
    case True
    then show ?thesis
      by (simp add: pos update_value_def id_mark_list_update id_mark_def)
  next
    case False
    then have "length rt \<le> i" by simp
    then have "rt[i := x] = rt" for x by (rule list_update_beyond)
    then show ?thesis by (simp add: pos update_value_def)
  qed
qed

lemma id_mark_resolve_variable:
  "map id_mark (snd (checker_resolve_variable rt i j)) = map id_mark rt"
proof (cases "ident (pvalue (pairs (attrs (rt ! i)) ! j))")
  case None
  then show ?thesis by (simp add: checker_resolve_variable_def)
next
  case (Some idt)
  then have "snd (checker_resolve_variable rt i j) = snd (resolve_variable_found rt i j idt)"
    by (simp add: checker_resolve_variable_def split: prod.split)
  moreover have "map id_mark (snd (resolve_variable_found rt i j idt)) = map id_mark rt"
    by (rule same_untag_id_mark) (rule resolve_variable_found_untag)
  ultimately show ?thesis by simp
qed

lemma intern_pair_snd:
  "snd (intern_pair av i j (errors, rt)) =
     snd (checker_resolve_variable
            (update_value (\<lambda>x. snd (checker_evaluate_scale (pvalue (pairs (attrs (rt ! i)) ! j))))
               (i, j) rt) i j)"
  by (simp only: intern_pair_def Let_def case_prod_beta prod.case fst_conv snd_conv)

lemma filter_duplicate_single:
  "filter is_duplicate_error (if c then [Err k l] else []) =
     (if c \<and> k = DuplicateDefinition then [Err k l] else [])"
  by (simp add: is_duplicate_error_def)

lemma intern_pair_fst:
  "filter is_duplicate_error (fst (intern_pair av i j (errors, rt))) =
     filter is_duplicate_error errors"
  unfolding intern_pair_def Let_def case_prod_beta prod.case fst_conv snd_conv
  by (simp add: filter_duplicate_single)

lemma intern_pair_id_mark:
  "map id_mark (snd (intern_pair av i j (errors, rt))) = map id_mark rt \<and>
   filter is_duplicate_error (fst (intern_pair av i j (errors, rt))) =
     filter is_duplicate_error errors"
  by (simp add: intern_pair_fst intern_pair_snd id_mark_resolve_variable id_mark_update_value)

lemma fold_intern_pair_id_mark:
  "map id_mark (snd (fold (intern_pair av i) js (errors, rt))) = map id_mark rt \<and>
   filter is_duplicate_error (fst (fold (intern_pair av i) js (errors, rt))) =
     filter is_duplicate_error errors"
proof (induction js arbitrary: errors rt)
  case Nil
  show ?case by simp
next
  case (Cons j js)
  obtain e1 rt1 where s: "intern_pair av i j (errors, rt) = (e1, rt1)"
    by (cases "intern_pair av i j (errors, rt)")
  with intern_pair_id_mark [of av i j errors rt] Cons.IH [of e1 rt1] show ?case by simp
qed

lemma filter_duplicate_concat:
  "(\<And>x. x \<in> set xs \<Longrightarrow> filter is_duplicate_error (f x) = []) \<Longrightarrow>
   filter is_duplicate_error (concat (map f xs)) = []"
  by (induction xs) simp_all

lemma intern_catalog_id_mark:
  assumes "i < length rt"
  shows "map id_mark (snd (intern_catalog cat i (errors, rt))) = map id_mark rt \<and>
   filter is_duplicate_error (fst (intern_catalog cat i (errors, rt))) =
     filter is_duplicate_error errors"
proof (cases "checker_find_definition cat (type (attrs (rt ! i))) (action (attrs (rt ! i)))")
  case None
  then show ?thesis
    by (simp add: intern_catalog_def is_duplicate_error_def)
next
  case (Some av)
  let ?d = "rt ! i"
  have a: "map id_mark (rt[i := annotate av (checker_count_nodes ?d) ?d]) = map id_mark rt"
    using assms by (simp add: id_mark_list_update id_mark_def annotate_def)
  have r: "filter is_duplicate_error
      (concat (map (\<lambda>p. if checker_find_property (pkey p) (pairs (attrs ?d)) \<noteq> 1
                        then [Err MissingOrDuplicateRequired
                                [type (attrs ?d), instance (attrs ?d), pkey p]]
                        else []) (av_required av))) = []"
    by (rule filter_duplicate_concat) (simp add: is_duplicate_error_def)
  have o: "filter is_duplicate_error
      (concat (map (\<lambda>p. if 2 \<le> checker_find_property (pkey p) (pairs (attrs ?d))
                        then [Err DuplicateOptional
                                [type (attrs ?d), instance (attrs ?d), pkey p]]
                        else []) (av_optional av))) = []"
    by (rule filter_duplicate_concat) (simp add: is_duplicate_error_def)
  show ?thesis
    unfolding intern_catalog_def
    by (simp add: Some Let_def fold_intern_pair_id_mark a r o is_duplicate_error_def)
qed

lemma filter_take_nonempty:
  "(0 < length (filter P (take k xs))) = (\<exists>j < k. j < length xs \<and> P (xs ! j))"
proof -
  have "(0 < length (filter P (take k xs))) = (\<exists>x \<in> set (take k xs). P x)"
    by (simp add: filter_empty_conv)
  also have "\<dots> = (\<exists>j < k. j < length xs \<and> P (xs ! j))"
  proof
    assume "\<exists>x \<in> set (take k xs). P x"
    then obtain j where "j < length (take k xs)" "P (take k xs ! j)"
      by (metis in_set_conv_nth)
    then have "j < k \<and> j < length xs \<and> P (xs ! j)" by simp
    then show "\<exists>j < k. j < length xs \<and> P (xs ! j)" by blast
  next
    assume "\<exists>j < k. j < length xs \<and> P (xs ! j)"
    then obtain j where j: "j < k" "j < length xs" "P (xs ! j)" by blast
    then have "j < length (take k xs)" "take k xs ! j = xs ! j" by simp_all
    with j(3) show "\<exists>x \<in> set (take k xs). P x" by (metis nth_mem)
  qed
  finally show ?thesis .
qed

lemma matches_id_mark:
  "id_mark a = id_mark b \<Longrightarrow> matches t i a = matches t i b"
  by (simp add: id_mark_def matches_def)

lemma same_id_mark_nth:
  assumes "map id_mark a = map id_mark b" "k < length b"
  shows "id_mark (a ! k) = id_mark (b ! k)"
proof -
  from assms have "length a = length b" by (metis length_map)
  with assms show ?thesis by (metis nth_map)
qed

lemma same_id_mark_filter:
  assumes "map id_mark a = map id_mark b"
  shows "length (filter (matches t i) a) = length (filter (matches t i) b)"
proof -
  have "filter (matches t i) a = filter ((\<lambda>m. fst m = t \<and> fst (snd m) = i) \<circ> id_mark) a" for a
    by (rule filter_cong) (simp_all add: matches_def id_mark_def)
  then have e: "length (filter (matches t i) a) =
      length (filter (\<lambda>m. fst m = t \<and> fst (snd m) = i) (map id_mark a))" for a
    by (simp only: filter_map length_map)
  show ?thesis unfolding e assms ..
qed

text \<open>One iteration of the loop, described through the statement list before it.\<close>

lemma intern_def_step:
  assumes i: "i < length cur"
  defines "t \<equiv> type (attrs (cur ! i))" and "n \<equiv> instance (attrs (cur ! i))"
  shows "length (snd (intern_def cat i (errors, cur))) = length cur"
    and "\<forall>k < length cur.
      id_mark (snd (intern_def cat i (errors, cur)) ! k) =
        (type (attrs (cur ! k)), instance (attrs (cur ! k)),
         if matches t n (cur ! k) \<and> (\<exists>j < k. matches t n (cur ! j)) then 1
         else duplicate (attrs (cur ! k)))"
    and "filter is_duplicate_error (fst (intern_def cat i (errors, cur))) =
      filter is_duplicate_error errors @
      (if length (filter (matches t n) cur) \<noteq> 1 \<and>
          \<not> (\<exists>j < i. matches t n (cur ! j)) \<and> duplicate (attrs (cur ! i)) = 0
       then [Err DuplicateDefinition [t, n]] else [])"
proof -
  obtain e1 cur1 where c: "intern_catalog cat i (errors, cur) = (e1, cur1)"
    by (cases "intern_catalog cat i (errors, cur)")
  from intern_catalog_id_mark [OF i, of cat errors] c
  have m1: "map id_mark cur1 = map id_mark cur"
    and f1: "filter is_duplicate_error e1 = filter is_duplicate_error errors"
    by simp_all
  from m1 have len1: "length cur1 = length cur" by (metis length_map)
  have idk: "id_mark (cur1 ! k) = id_mark (cur ! k)" if "k < length cur" for k
    using same_id_mark_nth [OF m1 that] .
  from idk [OF i] have tn: "type (attrs (cur1 ! i)) = t" "instance (attrs (cur1 ! i)) = n"
    by (simp_all add: id_mark_def t_def n_def)
  have mk: "matches t n (cur1 ! k) = matches t n (cur ! k)" if "k < length cur" for k
    by (rule matches_id_mark) (rule idk [OF that])
  define cur2 where "cur2 = snd (count_definition_loop cur1 t n 0)"
  define cnt where "cnt = fst (count_definition_loop cur1 t n 0)"
  have res: "intern_def cat i (errors, cur) =
      (e1 @ (if cnt \<noteq> 1 \<and> duplicate (attrs (cur2 ! i)) = 0
             then [Err DuplicateDefinition [t, n]] else []), cur2)"
    by (simp add: intern_def_def c tn checker_count_definition_def case_prod_beta Let_def
          cur2_def cnt_def)
  have cnt: "cnt = length (filter (matches t n) cur)"
    unfolding cnt_def count_definition_loop_fst
    using same_id_mark_filter [OF m1, of t n] by simp
  have len2: "length cur2 = length cur"
    by (simp add: cur2_def count_definition_loop_length len1)
  have ex: "(0 < length (filter (matches t n) (take k cur1))) =
      (\<exists>j < k. matches t n (cur ! j))" if "k < length cur" for k
    unfolding filter_take_nonempty using that len1 mk by auto
  have nth2: "cur2 ! k =
      (if matches t n (cur ! k) \<and> (\<exists>j < k. matches t n (cur ! j))
       then map_attrs (\<lambda>a. a\<lparr>duplicate := 1\<rparr>) (cur1 ! k) else cur1 ! k)"
    if "k < length cur" for k
    using that count_definition_loop_nth [of k cur1 t n 0] ex [OF that] mk [OF that] len1
    by (simp add: cur2_def)
  have id2: "id_mark (cur2 ! k) =
        (type (attrs (cur ! k)), instance (attrs (cur ! k)),
         if matches t n (cur ! k) \<and> (\<exists>j < k. matches t n (cur ! j)) then 1
         else duplicate (attrs (cur ! k)))" if "k < length cur" for k
    using nth2 [OF that] idk [OF that] by (auto simp add: id_mark_def)
  show "length (snd (intern_def cat i (errors, cur))) = length cur"
    by (simp add: res len2)
  show "\<forall>k < length cur.
      id_mark (snd (intern_def cat i (errors, cur)) ! k) =
        (type (attrs (cur ! k)), instance (attrs (cur ! k)),
         if matches t n (cur ! k) \<and> (\<exists>j < k. matches t n (cur ! j)) then 1
         else duplicate (attrs (cur ! k)))"
    using id2 by (simp add: res)
  have mi: "matches t n (cur ! i)" by (simp add: matches_def t_def n_def)
  have "duplicate (attrs (cur2 ! i)) =
      (if \<exists>j < i. matches t n (cur ! j) then 1 else duplicate (attrs (cur ! i)))"
    using id2 [OF i] mi by (simp add: id_mark_def)
  then have "(duplicate (attrs (cur2 ! i)) = 0) =
      (\<not> (\<exists>j < i. matches t n (cur ! j)) \<and> duplicate (attrs (cur ! i)) = 0)"
    by simp
  then show "filter is_duplicate_error (fst (intern_def cat i (errors, cur))) =
      filter is_duplicate_error errors @
      (if length (filter (matches t n) cur) \<noteq> 1 \<and>
          \<not> (\<exists>j < i. matches t n (cur ! j)) \<and> duplicate (attrs (cur ! i)) = 0
       then [Err DuplicateDefinition [t, n]] else [])"
    by (simp add: res f1 cnt is_duplicate_error_def)
qed
text \<open>The state of the loop after the first \<open>n\<close> statements.\<close>

lemma intern_fold_invariant:
  assumes clean: "\<forall>d \<in> set rt. duplicate (attrs d) = 0"
    and n: "n \<le> length rt"
  shows "length (snd (fold (intern_def cat) [0..<n] ([], rt))) = length rt \<and>
    (\<forall>k < length rt. id_mark (snd (fold (intern_def cat) [0..<n] ([], rt)) ! k) =
       (type (attrs (rt ! k)), instance (attrs (rt ! k)),
        if \<exists>m < n. matches (type (attrs (rt ! m))) (instance (attrs (rt ! m))) (rt ! k) \<and>
             (\<exists>j < k. matches (type (attrs (rt ! m))) (instance (attrs (rt ! m))) (rt ! j))
        then 1 else 0)) \<and>
    filter is_duplicate_error (fst (fold (intern_def cat) [0..<n] ([], rt))) =
      concat (map (\<lambda>m.
        if length (filter (matches (type (attrs (rt ! m))) (instance (attrs (rt ! m)))) rt) \<noteq> 1
           \<and> \<not> repeated rt m
        then [Err DuplicateDefinition [type (attrs (rt ! m)), instance (attrs (rt ! m))]]
        else []) [0..<n])"
  using n
proof (induction n)
  case 0
  from clean show ?case by (simp add: id_mark_def)
next
  case (Suc n)
  define acc where "acc = fold (intern_def cat) [0..<n] ([], rt)"
  define cur where "cur = snd acc"
  define errors where "errors = fst acc"
  define t where "t = type (attrs (rt ! n))"
  define i where "i = instance (attrs (rt ! n))"
  define mark where "mark k =
    (\<exists>m < n. matches (type (attrs (rt ! m))) (instance (attrs (rt ! m))) (rt ! k) \<and>
       (\<exists>j < k. matches (type (attrs (rt ! m))) (instance (attrs (rt ! m))) (rt ! j)))" for k
  from Suc.prems have nlt: "n < length rt" by simp
  from Suc.IH nlt have len: "length cur = length rt"
    and ids: "\<And>k. k < length rt \<Longrightarrow> id_mark (cur ! k) =
       (type (attrs (rt ! k)), instance (attrs (rt ! k)), if mark k then 1 else 0)"
    and errs: "filter is_duplicate_error errors =
      concat (map (\<lambda>m.
        if length (filter (matches (type (attrs (rt ! m))) (instance (attrs (rt ! m)))) rt) \<noteq> 1
           \<and> \<not> repeated rt m
        then [Err DuplicateDefinition [type (attrs (rt ! m)), instance (attrs (rt ! m))]]
        else []) [0..<n])"
    by (simp_all add: cur_def errors_def acc_def mark_def)
  have acc: "acc = (errors, cur)" by (simp add: cur_def errors_def)
  have step: "fold (intern_def cat) [0..<Suc n] ([], rt) = intern_def cat n (errors, cur)"
    by (simp add: acc_def [symmetric] acc)
  have mt: "matches a b (cur ! k) = matches a b (rt ! k)" if "k < length rt" for a b k
    using ids [OF that] by (simp add: id_mark_def matches_def)
  have tn: "type (attrs (cur ! n)) = t" "instance (attrs (cur ! n)) = i"
    using ids [OF nlt] by (simp_all add: id_mark_def t_def i_def)
  have dupk: "duplicate (attrs (cur ! k)) = (if mark k then 1 else 0)" if "k < length rt" for k
    using ids [OF that] by (simp add: id_mark_def)
  have tyk: "type (attrs (cur ! k)) = type (attrs (rt ! k))"
    "instance (attrs (cur ! k)) = instance (attrs (rt ! k))" if "k < length rt" for k
    using ids [OF that] by (simp_all add: id_mark_def)
  have same: "map id_mark (map (\<lambda>d. map_attrs (\<lambda>a. a\<lparr>duplicate := 0\<rparr>) d) cur) =
      map id_mark (map (\<lambda>d. map_attrs (\<lambda>a. a\<lparr>duplicate := 0\<rparr>) d) rt)"
    by (rule nth_equalityI) (simp_all add: len id_mark_def tyk)
  have cnt: "length (filter (matches t i) cur) = length (filter (matches t i) rt)"
  proof -
    have "length (filter (matches t i) xs) =
        length (filter (matches t i) (map (\<lambda>d. map_attrs (\<lambda>a. a\<lparr>duplicate := 0\<rparr>) d) xs))" for xs
      by (induction xs) (simp_all add: matches_def)
    then show ?thesis using same_id_mark_filter [OF same, of t i] by simp
  qed
  have exj: "(\<exists>j < k. matches t i (cur ! j)) = (\<exists>j < k. matches t i (rt ! j))"
    if "k < length rt" for k
    using that mt by (meson less_trans)
  from nlt len have ncur: "n < length cur" by simp
  note st = intern_def_step [OF ncur, of cat errors, unfolded tn]
  have r1: "length (snd (intern_def cat n (errors, cur))) = length rt"
    using st(1) len by simp
  have r2: "id_mark (snd (intern_def cat n (errors, cur)) ! k) =
       (type (attrs (rt ! k)), instance (attrs (rt ! k)),
        if \<exists>m < Suc n. matches (type (attrs (rt ! m))) (instance (attrs (rt ! m))) (rt ! k) \<and>
             (\<exists>j < k. matches (type (attrs (rt ! m))) (instance (attrs (rt ! m))) (rt ! j))
        then 1 else 0)" if k: "k < length rt" for k
  proof -
    from k len have "k < length cur" by simp
    with st(2) have "id_mark (snd (intern_def cat n (errors, cur)) ! k) =
        (type (attrs (cur ! k)), instance (attrs (cur ! k)),
         if matches t i (cur ! k) \<and> (\<exists>j < k. matches t i (cur ! j)) then 1
         else duplicate (attrs (cur ! k)))"
      by blast
    also have "\<dots> = (type (attrs (rt ! k)), instance (attrs (rt ! k)),
         if (matches t i (rt ! k) \<and> (\<exists>j < k. matches t i (rt ! j))) \<or> mark k then 1 else 0)"
      by (simp add: tyk [OF k] dupk [OF k] mt [OF k] exj [OF k])
    also have "((matches t i (rt ! k) \<and> (\<exists>j < k. matches t i (rt ! j))) \<or> mark k) =
        (\<exists>m < Suc n. matches (type (attrs (rt ! m))) (instance (attrs (rt ! m))) (rt ! k) \<and>
             (\<exists>j < k. matches (type (attrs (rt ! m))) (instance (attrs (rt ! m))) (rt ! j)))"
      unfolding mark_def t_def i_def less_Suc_eq by blast
    finally show ?thesis .
  qed
  have rep: "(\<exists>j < n. matches t i (cur ! j)) = repeated rt n"
    using exj [OF nlt] by (simp add: repeated_def t_def i_def)
  have unmarked: "duplicate (attrs (cur ! n)) = 0" if "\<not> repeated rt n"
  proof -
    have "\<not> mark n"
    proof
      assume "mark n"
      then obtain m where m: "m < n"
        "matches (type (attrs (rt ! m))) (instance (attrs (rt ! m))) (rt ! n)"
        unfolding mark_def by blast
      then have "matches (type (attrs (rt ! n))) (instance (attrs (rt ! n))) (rt ! m)"
        by (simp add: matches_def)
      with m(1) that show False unfolding repeated_def by blast
    qed
    then show ?thesis by (simp add: dupk [OF nlt])
  qed
  have r3: "filter is_duplicate_error (fst (intern_def cat n (errors, cur))) =
      concat (map (\<lambda>m.
        if length (filter (matches (type (attrs (rt ! m))) (instance (attrs (rt ! m)))) rt) \<noteq> 1
           \<and> \<not> repeated rt m
        then [Err DuplicateDefinition [type (attrs (rt ! m)), instance (attrs (rt ! m))]]
        else []) [0..<Suc n])"
    unfolding st(3) errs cnt rep using unmarked by (auto simp add: t_def i_def)
  show ?case unfolding step using r1 r2 r3 by blast
qed
lemma filter_optional_singletons:
  "length (filter P (concat (map (\<lambda>m. if c m then [h m] else []) xs))) =
   length (filter (\<lambda>m. c m \<and> P (h m)) xs)"
  by (induction xs) simp_all

lemma first_occurrences:
  "length (filter (\<lambda>m. matches t i (rt ! m) \<and> \<not> repeated rt m) [0..<length rt]) =
   (if \<exists>d \<in> set rt. matches t i d then 1 else 0)"
proof (induction rt rule: rev_induct)
  case Nil
  show ?case by simp
next
  case (snoc d rt)
  have old: "(matches t i ((rt @ [d]) ! m) \<and> \<not> repeated (rt @ [d]) m) =
      (matches t i (rt ! m) \<and> \<not> repeated rt m)" if "m < length rt" for m
    using that by (simp add: repeated_def nth_append)
  have f: "filter (\<lambda>m. matches t i ((rt @ [d]) ! m) \<and> \<not> repeated (rt @ [d]) m) [0..<length rt] =
      filter (\<lambda>m. matches t i (rt ! m) \<and> \<not> repeated rt m) [0..<length rt]"
    by (rule filter_cong) (simp_all add: old)
  have "(\<exists>j < length rt. matches t i (rt ! j)) = (\<exists>x \<in> set rt. matches t i x)"
    by (metis in_set_conv_nth)
  moreover have "repeated (rt @ [d]) (length rt) = (\<exists>j < length rt. matches t i (rt ! j))"
    if "matches t i d"
  proof -
    from that have "matches (type (attrs d)) (instance (attrs d)) = matches t i"
      by (auto simp add: matches_def fun_eq_iff)
    moreover have "(rt @ [d]) ! j = rt ! j" if "j < length rt" for j
      using that by (simp add: nth_append)
    ultimately show ?thesis by (auto simp add: repeated_def)
  qed
  ultimately have r: "matches t i d \<Longrightarrow>
      repeated (rt @ [d]) (length rt) = (\<exists>x \<in> set rt. matches t i x)"
    by simp
  from f r snoc.IH show ?case by auto
qed

lemma count_duplicate_errors:
  "length (filter (\<lambda>e. e = Err DuplicateDefinition l) errors) =
   length (filter (\<lambda>e. e = Err DuplicateDefinition l) (filter is_duplicate_error errors))"
proof -
  have "(is_duplicate_error e \<and> e = Err DuplicateDefinition l) = (e = Err DuplicateDefinition l)"
    for e
    by (auto simp add: is_duplicate_error_def)
  then show ?thesis by (simp add: conj_commute)
qed

text \<open>C8: in a list whose statements are all unmarked at the start (as the parser
  leaves them), the loop of \<^verbatim>\<open>netlist_checker_intern\<close> keeps the length of the list and
  the type and the instance name of every statement; at its end a statement is marked
  duplicate exactly when an earlier statement of the list has its type and its instance
  name; and the error of the duplicate definitions of a type and an instance name is
  reported once when two or more statements have them, and not at all otherwise.\<close>

theorem intern_duplicates:
  assumes "\<forall>d \<in> set rt. duplicate (attrs d) = 0"
  shows "length (snd (intern_loop cat rt)) = length rt \<and>
    (\<forall>k < length rt.
       id_mark (snd (intern_loop cat rt) ! k) =
         (type (attrs (rt ! k)), instance (attrs (rt ! k)), if repeated rt k then 1 else 0)) \<and>
    (\<forall>t i. length (filter (\<lambda>e. e = Err DuplicateDefinition [t, i]) (fst (intern_loop cat rt))) =
       (if 2 \<le> length (filter (matches t i) rt) then 1 else 0))"
proof -
  note inv = intern_fold_invariant [OF assms order_refl, of cat, folded intern_loop_def]
  have mark: "(\<exists>m < length rt.
        matches (type (attrs (rt ! m))) (instance (attrs (rt ! m))) (rt ! k) \<and>
        (\<exists>j < k. matches (type (attrs (rt ! m))) (instance (attrs (rt ! m))) (rt ! j))) =
      repeated rt k" if k: "k < length rt" for k
  proof
    assume "\<exists>m < length rt.
        matches (type (attrs (rt ! m))) (instance (attrs (rt ! m))) (rt ! k) \<and>
        (\<exists>j < k. matches (type (attrs (rt ! m))) (instance (attrs (rt ! m))) (rt ! j))"
    then show "repeated rt k" unfolding repeated_def matches_def by auto
  next
    assume "repeated rt k"
    with k show "\<exists>m < length rt.
        matches (type (attrs (rt ! m))) (instance (attrs (rt ! m))) (rt ! k) \<and>
        (\<exists>j < k. matches (type (attrs (rt ! m))) (instance (attrs (rt ! m))) (rt ! j))"
      unfolding repeated_def matches_def by blast
  qed
  have count: "length (filter (\<lambda>e. e = Err DuplicateDefinition [t, i]) (fst (intern_loop cat rt))) =
       (if 2 \<le> length (filter (matches t i) rt) then 1 else 0)" for t i
  proof -
    have sel: "(\<lambda>m. (length (filter (matches (type (attrs (rt ! m))) (instance (attrs (rt ! m)))) rt) \<noteq> 1
           \<and> \<not> repeated rt m) \<and>
          Err DuplicateDefinition [type (attrs (rt ! m)), instance (attrs (rt ! m))] =
          Err DuplicateDefinition [t, i]) =
        (\<lambda>m. length (filter (matches t i) rt) \<noteq> 1 \<and> (matches t i (rt ! m) \<and> \<not> repeated rt m))"
      by (rule ext) (auto simp add: matches_def)
    have "length (filter (\<lambda>e. e = Err DuplicateDefinition [t, i]) (fst (intern_loop cat rt))) =
        length (filter (\<lambda>m. length (filter (matches t i) rt) \<noteq> 1 \<and>
          (matches t i (rt ! m) \<and> \<not> repeated rt m)) [0..<length rt])"
      unfolding count_duplicate_errors [of "[t, i]" "fst (intern_loop cat rt)"]
        inv [THEN conjunct2, THEN conjunct2] filter_optional_singletons
      by (simp only: sel eq_commute [of "Err DuplicateDefinition [t, i]"])
    also have "\<dots> = (if length (filter (matches t i) rt) \<noteq> 1
        then (if \<exists>d \<in> set rt. matches t i d then 1 else 0) else 0)"
      using first_occurrences [of t i rt] by simp
    also have "(\<exists>d \<in> set rt. matches t i d) = (0 < length (filter (matches t i) rt))"
      by (simp add: filter_empty_conv)
    also have "(if length (filter (matches t i) rt) \<noteq> 1
        then (if 0 < length (filter (matches t i) rt) then 1 else 0) else 0) =
        (if 2 \<le> length (filter (matches t i) rt) then 1 else (0::nat))"
      by (cases "length (filter (matches t i) rt)") auto
    finally show ?thesis .
  qed
  from inv mark count show ?thesis by simp
qed
theorem intern_duplicates_witness:
  "(let r = intern_loop [] example_duplicates in
     length (snd r) = 4 \<and>
     duplicate (attrs (snd r ! 0)) = 0 \<and> duplicate (attrs (snd r ! 1)) = 0 \<and>
     duplicate (attrs (snd r ! 2)) = 1 \<and> duplicate (attrs (snd r ! 3)) = 1 \<and>
     length (filter (\<lambda>e. e = Err DuplicateDefinition [''R'', ''R1'']) (fst r)) = 1 \<and>
     length (filter (\<lambda>e. e = Err DuplicateDefinition [''C'', ''C1'']) (fst r)) = 0)"
proof -
  have h: "\<forall>d \<in> set example_duplicates. duplicate (attrs d) = 0"
    by (simp add: example_duplicates_def parsed_definition_def)
  have len: "length example_duplicates = 4"
    by (simp add: example_duplicates_def)
  have r0: "\<not> repeated example_duplicates 0" by (simp add: repeated_def)
  have r1: "\<not> repeated example_duplicates 1"
    by (simp add: repeated_def matches_def example_duplicates_def parsed_definition_def)
  have "matches (type (attrs (example_duplicates ! 2))) (instance (attrs (example_duplicates ! 2)))
      (example_duplicates ! 0)"
    by (simp add: matches_def example_duplicates_def parsed_definition_def)
  then have r2: "repeated example_duplicates 2"
    unfolding repeated_def by (intro exI [of _ 0]) simp
  have "matches (type (attrs (example_duplicates ! 3))) (instance (attrs (example_duplicates ! 3)))
      (example_duplicates ! 0)"
    by (simp add: matches_def example_duplicates_def parsed_definition_def)
  then have r3: "repeated example_duplicates 3"
    unfolding repeated_def by (intro exI [of _ 0]) simp
  have c1: "length (filter (matches ''R'' ''R1'') example_duplicates) = 3"
    by (simp add: matches_def example_duplicates_def parsed_definition_def)
  have c2: "length (filter (matches ''C'' ''C1'') example_duplicates) = 1"
    by (simp add: matches_def example_duplicates_def parsed_definition_def)
  note t = intern_duplicates [OF h, of "[]", unfolded len]
  from t have m: "k < 4 \<Longrightarrow> duplicate (attrs (snd (intern_loop [] example_duplicates) ! k)) =
      (if repeated example_duplicates k then 1 else 0)" for k
    by (simp add: id_mark_def)
  from t have e: "length (filter (\<lambda>e. e = Err DuplicateDefinition [t, i])
        (fst (intern_loop [] example_duplicates))) =
      (if 2 \<le> length (filter (matches t i) example_duplicates) then 1 else 0)" for t i
    by blast
  from t have l: "length (snd (intern_loop [] example_duplicates)) = 4" by blast
  show ?thesis
    unfolding Let_def using l m [of 0] m [of 1] m [of 2] m [of 3] r0 r1 r2 r3
      e [of "''R''" "''R1''"] e [of "''C''" "''C1''"] c1 c2
    by simp
qed


subsection \<open>The expansion returns\<close>














subsection \<open>What the checks leave unchanged\<close>

lemma shape_unfold:
  "shape d = Shape (type (attrs d)) (instance (attrs d)) (nodes (attrs d))
     (map (\<lambda>p. (key p, ident (pvalue p))) (pairs (attrs d))) (map shape (sub d))"
  by (cases d) simp

lemma shape_map_attrs:
  assumes "type (f (attrs d)) = type (attrs d)" "instance (f (attrs d)) = instance (attrs d)"
    "nodes (f (attrs d)) = nodes (attrs d)"
    "map (\<lambda>p. (key p, ident (pvalue p))) (pairs (f (attrs d))) =
     map (\<lambda>p. (key p, ident (pvalue p))) (pairs (attrs d))"
  shows "shape (map_attrs f d) = shape d"
  unfolding shape_unfold [of "map_attrs f d"] shape_unfold [of d] using assms by simp

lemma shape_untag [simp]: "shape (untag_definition d) = shape d"
  unfolding untag_definition_def
  by (rule shape_map_attrs) (simp_all add: untag_pair_def untag_value_def comp_def)


























subsection \<open>Lookups depend on the shape only\<close>

lemma shape_eqD:
  assumes "shape d = shape d'"
  shows "type (attrs d) = type (attrs d')" "instance (attrs d) = instance (attrs d')"
    "nodes (attrs d) = nodes (attrs d')"
    "map (\<lambda>p. (key p, ident (pvalue p))) (pairs (attrs d)) =
     map (\<lambda>p. (key p, ident (pvalue p))) (pairs (attrs d'))"
    "map shape (sub d) = map shape (sub d')"
  using assms unfolding shape_unfold [of d] shape_unfold [of d'] by simp_all

lemma find_reference_pairs_shape:
  "map (\<lambda>p. (key p, ident (pvalue p))) ps = map (\<lambda>p. (key p, ident (pvalue p))) ps' \<Longrightarrow>
   map_option ident (find_reference_pairs ps k) = map_option ident (find_reference_pairs ps' k)"
proof (induction ps arbitrary: ps')
  case Nil
  then show ?case by simp
next
  case (Cons p ps)
  then obtain p' ps1 where ps': "ps' = p' # ps1" by (cases ps') auto
  with Cons.prems have "key p = key p'" "ident (pvalue p) = ident (pvalue p')"
    "map (\<lambda>p. (key p, ident (pvalue p))) ps = map (\<lambda>p. (key p, ident (pvalue p))) ps1"
    by simp_all
  with Cons.IH [of ps1] ps' show ?case by auto
qed

lemma find_reference_shape:
  "shape d = shape d' \<Longrightarrow>
   map_option ident (checker_find_reference d k) = map_option ident (checker_find_reference d' k)"
  unfolding checker_find_reference_def
  by (rule find_reference_pairs_shape) (rule shape_eqD)

lemma find_subcircuit_shape:
  "map shape reg = map shape reg' \<Longrightarrow>
   map_option shape (checker_find_subcircuit reg n) =
   map_option shape (checker_find_subcircuit reg' n)"
proof (induction reg arbitrary: reg')
  case Nil
  then show ?case by simp
next
  case (Cons t reg)
  then obtain t' reg1 where r: "reg' = t' # reg1" by (cases reg') auto
  with Cons.prems have s: "shape t = shape t'" and m: "map shape reg = map shape reg1"
    by simp_all
  from shape_eqD(2) [OF s] Cons.IH [OF m] r s show ?case by auto
qed


lemma sub_types_shape:
  "map shape ds = map shape ds' \<Longrightarrow> sub_types ds = sub_types ds'"
proof (induction ds arbitrary: ds')
  case Nil
  then show ?case by simp
next
  case (Cons d ds)
  then obtain d' ds1 where r: "ds' = d' # ds1" by (cases ds') auto
  with Cons.prems have s: "shape d = shape d'" and m: "map shape ds = map shape ds1"
    by simp_all
  from find_reference_shape [OF s, of "''Type''"]
  have "map_option (\<lambda>v. the (ident v)) (checker_find_reference d ''Type'') =
      map_option (\<lambda>v. the (ident v)) (checker_find_reference d' ''Type'')"
    by (cases "checker_find_reference d ''Type''"; cases "checker_find_reference d' ''Type''")
       simp_all
  with shape_eqD(1) [OF s] Cons.IH [OF m] r show ?case
    by (auto split: option.splits)
qed

lemma instantiates_shape:
  assumes "map shape reg = map shape reg'"
  shows "instantiates reg = instantiates reg'"
proof -
  have "instantiates a A B \<Longrightarrow> instantiates b A B" if m: "map shape a = map shape b" for a b A B
  proof -
    assume "instantiates a A B"
    then obtain t where t: "checker_find_subcircuit a (Some A) = Some t"
      and B: "B \<in> set (sub_types (sub t))"
      by (auto simp add: instantiates_def)
    from find_subcircuit_shape [OF m, of "Some A"] t obtain t'
      where t': "checker_find_subcircuit b (Some A) = Some t'" and s: "shape t = shape t'"
      by (cases "checker_find_subcircuit b (Some A)") auto
    from sub_types_shape [OF shape_eqD(5) [OF s]] B t' show "instantiates b A B"
      by (auto simp add: instantiates_def)
  qed
  from this [OF assms] this [OF assms [symmetric]] show ?thesis
    by (intro ext) blast
qed


lemma find_subcircuit_None_shape:
  assumes "map shape reg = map shape reg'"
  shows "(checker_find_subcircuit reg n = None) = (checker_find_subcircuit reg' n = None)"
  using find_subcircuit_shape [OF assms, of n]
  by (cases "checker_find_subcircuit reg n"; cases "checker_find_subcircuit reg' n") simp_all

lemma templates_resolved_shape:
  "map shape reg = map shape reg' \<Longrightarrow> templates_resolved reg A = templates_resolved reg' A"
  by (simp add: templates_resolved_def instantiates_shape [of reg reg']
        find_subcircuit_None_shape [of reg reg'])




subsection \<open>Nodes as the parser leaves them\<close>


lemma parsed_nodes_shape: "shape d = shape d' \<Longrightarrow> parsed_nodes d = parsed_nodes d'"
  by (simp add: parsed_nodes_def)



subsection \<open>What a run of the checks without errors establishes\<close>
















subsection \<open>Statements that pass the checks of the catalog\<close>









subsection \<open>A run of the checker without errors\<close>
















end
